theory Spec2Isabelle
  imports Complex_Main
begin

chapter \<open>The model\<close>

section \<open>Strings\<close>

text \<open>
  A JavaScript string is modelled as a \<^typ>\<open>string\<close>: a list of 8-bit characters, read as
  the code units U+0000 to U+00FF. \<open>trim\<close> removes the white space and line terminators
  of that range from both ends, \<open>toLowerCase\<close> maps the upper-case letters of that range.
\<close>

definition is_js_space :: "char \<Rightarrow> bool" where
  "is_js_space c = ((of_char c :: nat) \<in> {9, 10, 11, 12, 13, 32, 160})"

definition js_trim :: "string \<Rightarrow> string" where
  "js_trim s = rev (dropWhile is_js_space (rev (dropWhile is_js_space s)))"

definition lower_char :: "char \<Rightarrow> char" where
  "lower_char c =
     (let n = (of_char c :: nat)
      in if (65 \<le> n \<and> n \<le> 90) \<or> (192 \<le> n \<and> n \<le> 222 \<and> n \<noteq> 215)
         then char_of (n + 32) else c)"

definition js_toLowerCase :: "string \<Rightarrow> string" where
  "js_toLowerCase s = map lower_char s"

text \<open>\<open>String.prototype.includes\<close>: the needle occurs as a contiguous substring.\<close>

fun js_includes :: "string \<Rightarrow> string \<Rightarrow> bool" where
  "js_includes [] needle = (needle = [])"
| "js_includes (c # cs) needle =
     (take (length needle) (c # cs) = needle \<or> js_includes cs needle)"

section \<open>Tool policy (tool-policy.ts)\<close>

record tool_policy =
  allow :: "string list option"
  deny :: "string list option"

datatype compiled_pattern = PAll | PExact string | PRegex string

definition normalizeToolName :: "string \<Rightarrow> string" where
  "normalizeToolName name =
     (let trimmed = js_toLowerCase (js_trim name)
      in if trimmed = ''apply-patch'' then ''apply_patch''
         else if trimmed = ''bash'' then ''exec''
         else trimmed)"

text \<open>
  The regular expression \<open>compilePattern\<close> builds escapes every special character and
  then turns each escaped star into \<open>.*\<close>, between the anchors \<open>^\<close> and \<open>$\<close>. So it is
  a sequence of literal characters and of \<open>.*\<close>, and it is kept here as the pattern text
  it was built from. \<open>regex_test\<close> is \<open>RegExp.prototype.test\<close> on such an expression: a
  dot matches every character but a line terminator (no \<open>s\<close> flag is given).
\<close>

definition is_line_terminator :: "char \<Rightarrow> bool" where
  "is_line_terminator c = ((of_char c :: nat) \<in> {10, 13})"

fun regex_test :: "string \<Rightarrow> string \<Rightarrow> bool" where
  "regex_test [] s = (s = [])"
| "regex_test (p # ps) [] = (p = CHR ''*'' \<and> regex_test ps [])"
| "regex_test (p # ps) (c # cs) =
     (if p = CHR ''*''
      then regex_test ps (c # cs) \<or> (\<not> is_line_terminator c \<and> regex_test (p # ps) cs)
      else c = p \<and> regex_test ps cs)"

definition compilePattern :: "string \<Rightarrow> compiled_pattern" where
  "compilePattern pattern =
     (let normalized = normalizeToolName pattern
      in if normalized = [] then PExact []
         else if normalized = ''*'' then PAll
         else if CHR ''*'' \<notin> set normalized then PExact normalized
         else PRegex normalized)"

definition compilePatterns :: "string list \<Rightarrow> compiled_pattern list" where
  "compilePatterns patterns = map compilePattern patterns"

fun matchesAny :: "string \<Rightarrow> compiled_pattern list \<Rightarrow> bool" where
  "matchesAny name [] = False"
| "matchesAny name (PAll # ps) = True"
| "matchesAny name (PExact v # ps) = (name = v \<or> matchesAny name ps)"
| "matchesAny name (PRegex r # ps) = (regex_test r name \<or> matchesAny name ps)"

definition isToolAllowed :: "string \<Rightarrow> tool_policy option \<Rightarrow> bool" where
  "isToolAllowed name policy =
     (case policy of
        None \<Rightarrow> True
      | Some pol \<Rightarrow>
          (let normalized = normalizeToolName name;
               denyP = compilePatterns (case deny pol of None \<Rightarrow> [] | Some d \<Rightarrow> d);
               allowP = compilePatterns (case allow pol of None \<Rightarrow> [] | Some a \<Rightarrow> a)
           in if matchesAny normalized denyP then False
              else if allowP = [] then True
              else if matchesAny normalized allowP then True
              else if normalized = ''apply_patch'' \<and> matchesAny ''exec'' allowP then True
              else False))"

text \<open>
  The glob of the specification: a star stands for any run of characters, every other
  character for itself.
\<close>

fun spec_glob :: "string \<Rightarrow> string \<Rightarrow> bool" where
  "spec_glob [] s = (s = [])"
| "spec_glob (p # ps) [] = (p = CHR ''*'' \<and> spec_glob ps [])"
| "spec_glob (p # ps) (c # cs) =
     (if p = CHR ''*''
      then spec_glob ps (c # cs) \<or> spec_glob (p # ps) cs
      else c = p \<and> spec_glob ps cs)"

section \<open>Command queue (command-queue.ts)\<close>

text \<open>
  A lane is the \<open>LaneState\<close> of the source. A queue entry is kept as the value that
  identifies its task; the \<open>onWait\<close> callback only reports and is left out.
\<close>

record 'a LaneState =
  lane :: string
  active :: int
  queue :: "'a list"
  maxConcurrent :: int

text \<open>\<open>getLaneState\<close> on a name the table does not hold yet.\<close>

definition createLane :: "string \<Rightarrow> 'a LaneState" where
  "createLane name = \<lparr>lane = name, active = 0, queue = [], maxConcurrent = 1\<rparr>"

text \<open>
  \<open>drainLane\<close>: the \<open>while\<close> loop. It returns the lane and, in order, the entries whose
  task it started.
\<close>

function drainLane :: "'a LaneState \<Rightarrow> 'a LaneState \<times> 'a list" where
  "drainLane s =
     (if active s < maxConcurrent s \<and> queue s \<noteq> []
      then (case drainLane (s\<lparr>queue := tl (queue s), active := active s + 1\<rparr>) of
              (s', ts) \<Rightarrow> (s', hd (queue s) # ts))
      else (s, []))"
  by pat_completeness auto
termination
  by (relation "measure (\<lambda>s. length (queue s))") auto

declare drainLane.simps [simp del]

definition setLaneConcurrency :: "rat \<Rightarrow> 'a LaneState \<Rightarrow> 'a LaneState \<times> 'a list" where
  "setLaneConcurrency m s = drainLane (s\<lparr>maxConcurrent := max 1 \<lfloor>m\<rfloor>\<rparr>)"

definition enqueueInLane :: "'a LaneState \<Rightarrow> 'a \<Rightarrow> 'a LaneState \<times> 'a list" where
  "enqueueInLane s task = drainLane (s\<lparr>queue := queue s @ [task]\<rparr>)"

text \<open>
  What the wrapper of a started task does once the task's promise settles, fulfilled or
  rejected alike: \<open>state.active -= 1; drainLane(lane)\<close>.
\<close>

definition settleTask :: "'a LaneState \<Rightarrow> 'a LaneState \<times> 'a list" where
  "settleTask s = drainLane (s\<lparr>active := active s - 1\<rparr>)"

text \<open>
  The lane with its surroundings: the entries enqueued so far, the entries whose task was
  started so far (both in order), and the tasks started and not yet settled. Each call of
  \<open>enqueueInLane\<close>, of \<open>drainLane\<close> and each settlement of a task in flight is one step
  (JavaScript runs each to completion); the lane starts as \<open>setLaneConcurrency\<close> leaves a
  fresh lane.
\<close>

record 'a lane_world =
  state :: "'a LaneState"
  enqueued :: "'a list"
  started :: "'a list"
  inflight :: "'a list"

inductive lane_reachable :: "rat \<Rightarrow> string \<Rightarrow> 'a lane_world \<Rightarrow> bool" for m :: rat and name :: string where
  lane_init:
    "lane_reachable m name
       \<lparr>state = fst (setLaneConcurrency m (createLane name)), enqueued = [], started = [], inflight = []\<rparr>"
| lane_enqueue:
    "lane_reachable m name w \<Longrightarrow> enqueueInLane (state w) task = (s', ts) \<Longrightarrow>
     lane_reachable m name
       \<lparr>state = s', enqueued = enqueued w @ [task], started = started w @ ts, inflight = inflight w @ ts\<rparr>"
| lane_drain:
    "lane_reachable m name w \<Longrightarrow> drainLane (state w) = (s', ts) \<Longrightarrow>
     lane_reachable m name
       \<lparr>state = s', enqueued = enqueued w, started = started w @ ts, inflight = inflight w @ ts\<rparr>"
| lane_settle:
    "lane_reachable m name w \<Longrightarrow> task \<in> set (inflight w) \<Longrightarrow> settleTask (state w) = (s', ts) \<Longrightarrow>
     lane_reachable m name
       \<lparr>state = s', enqueued = enqueued w, started = started w @ ts,
        inflight = remove1 task (inflight w) @ ts\<rparr>"

text \<open>
  What every reachable state of a lane satisfies: the bound on the tasks in flight, and the
  order of the entries.
\<close>

definition lane_inv :: "rat \<Rightarrow> 'a lane_world \<Rightarrow> bool" where
  "lane_inv m w =
     (maxConcurrent (state w) = max 1 \<lfloor>m\<rfloor>
      \<and> active (state w) \<le> maxConcurrent (state w)
      \<and> int (length (inflight w)) = active (state w)
      \<and> started w @ queue (state w) = enqueued w)"

section \<open>Messages (session.ts, context/tokens.ts)\<close>

text \<open>
  The transcript's data, as the code that uses it reads it. The fields of a content block
  the source declares optional and tests before use (\<open>id\<close>, \<open>name\<close>, \<open>tool_use_id\<close>,
  \<open>content\<close>) are options; the arguments of a tool call, an object, are kept as the list of
  its entries: each key with the JSON text of its value.
\<close>

type_synonym json = "(string \<times> string) list"

datatype Role = User | Assistant

datatype ContentBlock =
    TextBlock string
  | ToolUse "string option" "string option" json
  | ToolResult "string option" "string option" "string option"

datatype Content = Str string | Blocks "ContentBlock list"

record Message =
  role :: Role
  content :: Content
  timestamp :: nat

text \<open>
  A message held in an array is a reference to an object: the pair of its address and its
  fields. \<open>===\<close> and membership in a \<open>Set\<close> compare addresses.
\<close>

type_synonym MessageObj = "nat \<times> Message"

text \<open>
  Modelled from the spec: the size estimates of \<open>context/tokens.ts\<close>, a file of the
  repository that is not among the sources. The spec fixes \<open>CHARS_PER_TOKEN_ESTIMATE\<close> at 4
  and says nothing else of them, so the four functions are parameters.
\<close>

record Estimator =
  estimateMessageChars :: "Message \<Rightarrow> nat"
  estimateMessagesChars :: "Message list \<Rightarrow> nat"
  estimateMessageTokens :: "Message \<Rightarrow> rat"
  estimateMessagesTokens :: "Message list \<Rightarrow> rat"

definition CHARS_PER_TOKEN_ESTIMATE :: int where
  "CHARS_PER_TOKEN_ESTIMATE = 4"

text \<open>A number in a template literal: its decimal digits.\<close>

definition digit_char :: "nat \<Rightarrow> char" where
  "digit_char d = ''0123456789'' ! d"

function decimal :: "nat \<Rightarrow> string" where
  "decimal n = (if n < 10 then [digit_char n] else decimal (n div 10) @ [digit_char (n mod 10)])"
  by pat_completeness auto
termination
  by (relation "measure (\<lambda>n. n)") auto

declare decimal.simps [simp del]

definition decimal_int :: "int \<Rightarrow> string" where
  "decimal_int i = (if i < 0 then CHR ''-'' # decimal (nat (- i)) else decimal (nat i))"

section \<open>Context pruning (context/pruning.ts)\<close>

text \<open>
  JavaScript numbers are modelled exactly: the sizes are integers far below \<open>2^53\<close>, whose
  sums and differences JavaScript computes exactly too, and the ratios are rationals. A
  quotient or a product with a ratio is rounded by JavaScript by less than one part in
  \<open>2^52\<close>; here it is not rounded. Numbers that are not finite are left out.
\<close>

record ContextPruningToolMatch =
  tm_allow :: "string list option"
  tm_deny :: "string list option"

definition matchGlob :: "string \<Rightarrow> string \<Rightarrow> bool" where
  "matchGlob v pattern =
     (if pattern = ''*'' then True
      else if CHR ''*'' \<notin> set pattern then v = pattern
      else regex_test pattern v)"

definition makeToolPrunablePredicate :: "ContextPruningToolMatch option \<Rightarrow> string \<Rightarrow> bool" where
  "makeToolPrunablePredicate match toolName =
     (case match of
        None \<Rightarrow> True
      | Some m \<Rightarrow>
          (let denyL = (case tm_deny m of None \<Rightarrow> [] | Some d \<Rightarrow> d);
               allowL = (case tm_allow m of None \<Rightarrow> [] | Some a \<Rightarrow> a);
               normalized = js_toLowerCase (js_trim toolName)
           in if list_ex (\<lambda>pattern. matchGlob normalized (js_toLowerCase pattern)) denyL then False
              else if allowL = [] then True
              else list_ex (\<lambda>pattern. matchGlob normalized (js_toLowerCase pattern)) allowL))"

record SoftTrimSettings =
  maxChars :: nat
  headChars :: nat
  tailChars :: nat

record HardClearSettings =
  enabled :: bool
  placeholder :: string

record ContextPruningSettings =
  maxHistoryShare :: rat
  keepLastAssistants :: nat
  softTrimRatio :: rat
  hardClearRatio :: rat
  minPrunableToolChars :: nat
  softTrim :: SoftTrimSettings
  hardClear :: HardClearSettings
  tools :: ContextPruningToolMatch

definition DEFAULT_CONTEXT_PRUNING_SETTINGS :: ContextPruningSettings where
  "DEFAULT_CONTEXT_PRUNING_SETTINGS =
     \<lparr>maxHistoryShare = 1 / 2,
      keepLastAssistants = 3,
      softTrimRatio = 3 / 10,
      hardClearRatio = 1 / 2,
      minPrunableToolChars = 50000,
      softTrim = \<lparr>maxChars = 4000, headChars = 1500, tailChars = 1500\<rparr>,
      hardClear = \<lparr>enabled = True, placeholder = ''[Old tool result content cleared]''\<rparr>,
      tools = \<lparr>tm_allow = None, tm_deny = None\<rparr>\<rparr>"

text \<open>The settings a caller passes: every field may be absent.\<close>

record RawSoftTrimSettings =
  raw_maxChars :: "rat option"
  raw_headChars :: "rat option"
  raw_tailChars :: "rat option"

record RawHardClearSettings =
  raw_enabled :: "bool option"
  raw_placeholder :: "string option"

record RawContextPruningSettings =
  raw_maxHistoryShare :: "rat option"
  raw_keepLastAssistants :: "rat option"
  raw_softTrimRatio :: "rat option"
  raw_hardClearRatio :: "rat option"
  raw_minPrunableToolChars :: "rat option"
  raw_softTrim :: "RawSoftTrimSettings option"
  raw_hardClear :: "RawHardClearSettings option"
  raw_tools :: "ContextPruningToolMatch option"

definition clampShare :: "rat \<Rightarrow> rat \<Rightarrow> rat" where
  "clampShare v fallback = min 1 (max 0 v)"

definition clampPositiveInt :: "rat option \<Rightarrow> nat \<Rightarrow> nat" where
  "clampPositiveInt v fallback = (case v of None \<Rightarrow> fallback | Some x \<Rightarrow> nat (max 0 \<lfloor>x\<rfloor>))"

definition resolvePruningSettings :: "RawContextPruningSettings option \<Rightarrow> ContextPruningSettings" where
  "resolvePruningSettings raw =
     (case raw of
        None \<Rightarrow> DEFAULT_CONTEXT_PRUNING_SETTINGS
      | Some r \<Rightarrow>
          (let d = DEFAULT_CONTEXT_PRUNING_SETTINGS
           in \<lparr>maxHistoryShare =
                 clampShare (case raw_maxHistoryShare r of None \<Rightarrow> maxHistoryShare d | Some x \<Rightarrow> x)
                   (maxHistoryShare d),
               keepLastAssistants = clampPositiveInt (raw_keepLastAssistants r) (keepLastAssistants d),
               softTrimRatio =
                 clampShare (case raw_softTrimRatio r of None \<Rightarrow> softTrimRatio d | Some x \<Rightarrow> x)
                   (softTrimRatio d),
               hardClearRatio =
                 clampShare (case raw_hardClearRatio r of None \<Rightarrow> hardClearRatio d | Some x \<Rightarrow> x)
                   (hardClearRatio d),
               minPrunableToolChars =
                 clampPositiveInt (raw_minPrunableToolChars r) (minPrunableToolChars d),
               softTrim =
                 \<lparr>maxChars =
                    clampPositiveInt (case raw_softTrim r of None \<Rightarrow> None | Some s \<Rightarrow> raw_maxChars s)
                      (maxChars (softTrim d)),
                  headChars =
                    clampPositiveInt (case raw_softTrim r of None \<Rightarrow> None | Some s \<Rightarrow> raw_headChars s)
                      (headChars (softTrim d)),
                  tailChars =
                    clampPositiveInt (case raw_softTrim r of None \<Rightarrow> None | Some s \<Rightarrow> raw_tailChars s)
                      (tailChars (softTrim d))\<rparr>,
               hardClear =
                 \<lparr>enabled =
                    (case (case raw_hardClear r of None \<Rightarrow> None | Some h \<Rightarrow> raw_enabled h) of
                       None \<Rightarrow> enabled (hardClear d) | Some b \<Rightarrow> b),
                  placeholder =
                    (case (case raw_hardClear r of None \<Rightarrow> None | Some h \<Rightarrow> raw_placeholder h) of
                       None \<Rightarrow> placeholder (hardClear d) | Some p \<Rightarrow> p)\<rparr>,
               tools = (case raw_tools r of None \<Rightarrow> tools d | Some t \<Rightarrow> t)\<rparr>))"

subsection \<open>Layer 1: soft trim\<close>

text \<open>\<open>cloneMessage\<close> makes a new object: the clone lives at the address it is given.\<close>

definition cloneMessage :: "nat \<Rightarrow> MessageObj \<Rightarrow> Content \<Rightarrow> MessageObj" where
  "cloneMessage addr message c = (addr, (snd message)\<lparr>content := c\<rparr>)"

definition isToolResultProtected :: "ContentBlock \<Rightarrow> bool" where
  "isToolResultProtected block = False"

text \<open>A string is truthy when it is there and not empty.\<close>

definition truthy :: "string option \<Rightarrow> bool" where
  "truthy s = (case s of None \<Rightarrow> False | Some v \<Rightarrow> v \<noteq> [])"

definition trimmedText :: "SoftTrimSettings \<Rightarrow> string \<Rightarrow> string" where
  "trimmedText settings raw =
     take (headChars settings) raw @ [CHR 0x0A] @ ''...'' @ [CHR 0x0A]
       @ drop (length raw - tailChars settings) raw
       @ [CHR 0x0A, CHR 0x0A] @ ''[Tool result trimmed: kept first '' @ decimal (headChars settings)
       @ '' chars and last '' @ decimal (tailChars settings) @ '' chars of ''
       @ decimal (length raw) @ '' chars.]''"

fun softTrimToolResultBlock ::
  "ContentBlock \<Rightarrow> SoftTrimSettings \<Rightarrow> (string \<Rightarrow> bool) \<Rightarrow> ContentBlock \<times> bool" where
  "softTrimToolResultBlock (ToolResult tid nm c) settings isPrunable =
     (if isToolResultProtected (ToolResult tid nm c) then (ToolResult tid nm c, False)
      else if truthy tid \<and> \<not> isPrunable (the tid) then (ToolResult tid nm c, False)
      else
        (let raw = (case c of Some s \<Rightarrow> s | None \<Rightarrow> []);
             rawLen = length raw
         in if rawLen \<le> maxChars settings then (ToolResult tid nm c, False)
            else
              (let headChars = max 0 (headChars settings);
                   tailChars = max 0 (tailChars settings)
               in if headChars + tailChars \<ge> rawLen then (ToolResult tid nm c, False)
                  else (ToolResult tid nm (Some (trimmedText settings raw)), True))))"
| "softTrimToolResultBlock block settings isPrunable = (block, False)"

text \<open>
  The inner loop of \<open>applySoftTrim\<close> over the blocks of one message: the new blocks and the
  number of blocks trimmed (\<open>didChange\<close> is that the number is not zero).
\<close>

fun softTrimBlocks ::
  "SoftTrimSettings \<Rightarrow> (string \<Rightarrow> bool) \<Rightarrow> ContentBlock list \<Rightarrow> ContentBlock list \<times> nat" where
  "softTrimBlocks settings isPrunable [] = ([], 0)"
| "softTrimBlocks settings isPrunable (block # rest) =
     (case softTrimToolResultBlock block settings isPrunable of
        (b, trimmed) \<Rightarrow>
          (case softTrimBlocks settings isPrunable rest of
             (bs, n) \<Rightarrow> (b # bs, (if trimmed then 1 else 0) + n)))"

text \<open>
  \<open>applySoftTrim\<close>: the messages, the number of trimmed tool results and the next free
  address (\<open>nxt\<close> is the first address no object has yet).
\<close>

fun applySoftTrim ::
  "nat \<Rightarrow> MessageObj list \<Rightarrow> ContextPruningSettings \<Rightarrow> (string \<Rightarrow> bool)
     \<Rightarrow> MessageObj list \<times> nat \<times> nat" where
  "applySoftTrim nxt [] settings isPrunable = ([], 0, nxt)"
| "applySoftTrim nxt (msg # rest) settings isPrunable =
     (case content (snd msg) of
        Str s \<Rightarrow>
          (case applySoftTrim nxt rest settings isPrunable of
             (out, n, nxt') \<Rightarrow> (msg # out, n, nxt'))
      | Blocks blocks \<Rightarrow>
          (case softTrimBlocks (softTrim settings) isPrunable blocks of
             (nextBlocks, k) \<Rightarrow>
               if k > 0
               then (case applySoftTrim (nxt + 1) rest settings isPrunable of
                       (out, n, nxt') \<Rightarrow> (cloneMessage nxt msg (Blocks nextBlocks) # out, k + n, nxt'))
               else (case applySoftTrim nxt rest settings isPrunable of
                       (out, n, nxt') \<Rightarrow> (msg # out, n, nxt'))))"

subsection \<open>Layer 2: hard clear\<close>

fun prunableBlockChars :: "(string \<Rightarrow> bool) \<Rightarrow> ContentBlock \<Rightarrow> nat" where
  "prunableBlockChars isPrunable (ToolResult tid nm c) =
     (if isToolResultProtected (ToolResult tid nm c) then 0
      else if truthy tid \<and> \<not> isPrunable (the tid) then 0
      else length (case c of Some s \<Rightarrow> s | None \<Rightarrow> []))"
| "prunableBlockChars isPrunable block = 0"

definition countPrunableToolChars :: "Message list \<Rightarrow> (string \<Rightarrow> bool) \<Rightarrow> nat" where
  "countPrunableToolChars messages isPrunable =
     sum_list (map (\<lambda>msg. case content msg of
                              Str s \<Rightarrow> 0
                            | Blocks blocks \<Rightarrow> sum_list (map (prunableBlockChars isPrunable) blocks))
                 messages)"

text \<open>
  The inner loop of \<open>applyHardClear\<close> over the blocks of one message, from the running
  \<open>totalChars\<close>: the new blocks, the number of blocks cleared and the new \<open>totalChars\<close>.
\<close>

fun hardClearBlocks ::
  "HardClearSettings \<Rightarrow> rat \<Rightarrow> (string \<Rightarrow> bool) \<Rightarrow> int \<Rightarrow> int \<Rightarrow> ContentBlock list
     \<Rightarrow> ContentBlock list \<times> nat \<times> int" where
  "hardClearBlocks hc ratioLimit isPrunable charWindow totalChars [] = ([], 0, totalChars)"
| "hardClearBlocks hc ratioLimit isPrunable charWindow totalChars (ToolResult tid nm (Some c) # rest) =
     (if \<not> isToolResultProtected (ToolResult tid nm (Some c)) \<and> length c > 0
         \<and> (\<not> truthy tid \<or> isPrunable (the tid))
      then
        (if of_int totalChars / of_int charWindow < ratioLimit
         then (case hardClearBlocks hc ratioLimit isPrunable charWindow totalChars rest of
                 (bs, n, t) \<Rightarrow> (ToolResult tid nm (Some c) # bs, n, t))
         else (case hardClearBlocks hc ratioLimit isPrunable charWindow
                      (totalChars - (int (length c) - int (length (placeholder hc)))) rest of
                 (bs, n, t) \<Rightarrow> (ToolResult tid nm (Some (placeholder hc)) # bs, n + 1, t)))
      else (case hardClearBlocks hc ratioLimit isPrunable charWindow totalChars rest of
              (bs, n, t) \<Rightarrow> (ToolResult tid nm (Some c) # bs, n, t)))"
| "hardClearBlocks hc ratioLimit isPrunable charWindow totalChars (block # rest) =
     (case hardClearBlocks hc ratioLimit isPrunable charWindow totalChars rest of
        (bs, n, t) \<Rightarrow> (block # bs, n, t))"

text \<open>The outer loop of \<open>applyHardClear\<close> over the messages.\<close>

fun hardClearMessages ::
  "nat \<Rightarrow> HardClearSettings \<Rightarrow> rat \<Rightarrow> (string \<Rightarrow> bool) \<Rightarrow> int \<Rightarrow> int \<Rightarrow> MessageObj list
     \<Rightarrow> MessageObj list \<times> nat \<times> nat" where
  "hardClearMessages nxt hc ratioLimit isPrunable charWindow totalChars [] = ([], 0, nxt)"
| "hardClearMessages nxt hc ratioLimit isPrunable charWindow totalChars (msg # rest) =
     (case content (snd msg) of
        Str s \<Rightarrow>
          (case hardClearMessages nxt hc ratioLimit isPrunable charWindow totalChars rest of
             (out, n, nxt') \<Rightarrow> (msg # out, n, nxt'))
      | Blocks blocks \<Rightarrow>
          (case hardClearBlocks hc ratioLimit isPrunable charWindow totalChars blocks of
             (nextBlocks, k, total') \<Rightarrow>
               if k > 0
               then (case hardClearMessages (nxt + 1) hc ratioLimit isPrunable charWindow total' rest of
                       (out, n, nxt') \<Rightarrow> (cloneMessage nxt msg (Blocks nextBlocks) # out, k + n, nxt'))
               else (case hardClearMessages nxt hc ratioLimit isPrunable charWindow total' rest of
                       (out, n, nxt') \<Rightarrow> (msg # out, n, nxt'))))"

definition applyHardClear ::
  "Estimator \<Rightarrow> nat \<Rightarrow> MessageObj list \<Rightarrow> ContextPruningSettings \<Rightarrow> (string \<Rightarrow> bool) \<Rightarrow> int
     \<Rightarrow> MessageObj list \<times> nat \<times> nat" where
  "applyHardClear E nxt messages settings isPrunable charWindow =
     (if \<not> enabled (hardClear settings) then (messages, 0, nxt)
      else
        (let totalChars = int (estimateMessagesChars E (map snd messages));
             ratio = of_int totalChars / of_int charWindow
         in if ratio < hardClearRatio settings then (messages, 0, nxt)
            else if countPrunableToolChars (map snd messages) isPrunable < minPrunableToolChars settings
            then (messages, 0, nxt)
            else hardClearMessages nxt (hardClear settings) (hardClearRatio settings) isPrunable
                   charWindow totalChars messages))"

subsection \<open>Layer 3: message drop\<close>

text \<open>
  The loop of \<open>findAssistantCutoffIndex\<close>, \<open>for (i = length - 1; i >= 0; i--)\<close>: the third
  argument is \<open>i + 1\<close>.
\<close>

fun cutoffLoop :: "Message list \<Rightarrow> nat \<Rightarrow> nat \<Rightarrow> nat option" where
  "cutoffLoop msgs remaining 0 = None"
| "cutoffLoop msgs remaining (Suc i) =
     (if role (msgs ! i) \<noteq> Assistant then cutoffLoop msgs remaining i
      else if remaining - 1 = 0 then Some i
      else cutoffLoop msgs (remaining - 1) i)"

definition findAssistantCutoffIndex :: "Message list \<Rightarrow> nat \<Rightarrow> nat option" where
  "findAssistantCutoffIndex msgs keepLast =
     (if keepLast \<le> 0 then Some (length msgs) else cutoffLoop msgs keepLast (length msgs))"

text \<open>
  The loop of \<open>sliceWithinBudget\<close>, from the end backwards; \<open>kept\<close> is in the order of the
  pushes and is reversed at the end.
\<close>

fun sliceLoop :: "Estimator \<Rightarrow> MessageObj list \<Rightarrow> nat \<Rightarrow> nat \<Rightarrow> MessageObj list \<Rightarrow> nat \<Rightarrow> MessageObj list" where
  "sliceLoop E msgs budget 0 kept used = kept"
| "sliceLoop E msgs budget (Suc i) kept used =
     (let msg = msgs ! i; chars = estimateMessageChars E (snd msg)
      in if used + chars > budget \<and> length kept > 0 then kept
         else sliceLoop E msgs budget i (kept @ [msg]) (used + chars))"

definition sliceWithinBudget :: "Estimator \<Rightarrow> MessageObj list \<Rightarrow> nat \<Rightarrow> MessageObj list" where
  "sliceWithinBudget E msgs budget = rev (sliceLoop E msgs budget (length msgs) [] 0)"

text \<open>
  The loop that extends the protected messages backwards, \<open>for (i = protectedIndex - 1; i >= 0; i--)\<close>,
  with \<open>kept.unshift\<close>.
\<close>

fun fillLoop :: "Estimator \<Rightarrow> MessageObj list \<Rightarrow> nat \<Rightarrow> MessageObj list \<Rightarrow> nat \<Rightarrow> MessageObj list" where
  "fillLoop E current 0 kept remaining = kept"
| "fillLoop E current (Suc i) kept remaining =
     (let msg = current ! i; msgChars = estimateMessageChars E (snd msg)
      in if msgChars > remaining then kept
         else fillLoop E current i (msg # kept) (remaining - msgChars))"

text \<open>
  The message drop of \<open>pruneContextMessages\<close>, entered when the estimate of \<open>current\<close> is
  over the budget: the kept and the dropped messages. The \<open>Set\<close> of the kept messages holds
  their addresses.
\<close>

definition dropMessages ::
  "Estimator \<Rightarrow> MessageObj list \<Rightarrow> nat \<Rightarrow> nat \<Rightarrow> MessageObj list \<times> MessageObj list" where
  "dropMessages E current keepLast budget =
     (let cutoffIndex = findAssistantCutoffIndex (map snd current) keepLast;
          protectedIndex = (case cutoffIndex of None \<Rightarrow> 0 | Some i \<Rightarrow> i);
          protectedMessages = drop protectedIndex current;
          protectedChars = estimateMessagesChars E (map snd protectedMessages);
          kept = (if protectedChars > budget then sliceWithinBudget E current budget
                  else fillLoop E current protectedIndex protectedMessages (budget - protectedChars));
          keptSet = fst ` set kept;
          dropped = filter (\<lambda>msg. fst msg \<notin> keptSet) current
      in (kept, dropped))"

subsection \<open>The pruner\<close>

record PruneResult =
  pr_messages :: "MessageObj list"
  pr_droppedMessages :: "MessageObj list"
  pr_trimmedToolResults :: nat
  pr_hardClearedToolResults :: nat
  pr_totalChars :: nat
  pr_keptChars :: nat
  pr_droppedChars :: nat
  pr_budgetChars :: nat

definition charWindowOf :: "rat \<Rightarrow> int" where
  "charWindowOf contextWindowTokens = max 1 \<lfloor>contextWindowTokens\<rfloor> * CHARS_PER_TOKEN_ESTIMATE"

text \<open>
  The budget is the floor of a product of two JavaScript numbers, and the floor depends on
  how the product is rounded: a number is a binary64 value, and each operation gives the
  binary64 value nearest to the exact result, the one with the even significand when two
  are equally near. \<open>toDouble x\<close> is that value, for \<open>x\<close> below the largest binary64 value in
  size: the significand has 53 bits, and below \<open>2\<^sup>-\<^sup>1\<^sup>0\<^sup>2\<^sup>2\<close> the values are
  \<open>2\<^sup>-\<^sup>1\<^sup>0\<^sup>7\<^sup>4\<close> apart. \<open>bitLength n\<close> is the number of binary digits of \<open>n\<close>, and
  \<open>binaryExponent a\<close>, for \<open>a > 0\<close>, the \<open>e\<close> with \<open>2\<^sup>e \<le> a < 2\<^sup>e\<^sup>+\<^sup>1\<close>.
\<close>

fun bitLength :: "nat \<Rightarrow> nat" where
  "bitLength n = (if n = 0 then 0 else Suc (bitLength (n div 2)))"

declare bitLength.simps [simp del]

definition pow2 :: "int \<Rightarrow> rat" where
  "pow2 k = (if 0 \<le> k then 2 ^ nat k else 1 / 2 ^ nat (- k))"

definition binaryExponent :: "rat \<Rightarrow> int" where
  "binaryExponent a =
     (if 1 \<le> a then int (bitLength (nat \<lfloor>a\<rfloor>)) - 1
      else - int (bitLength (nat (\<lceil>1 / a\<rceil> - 1))))"

definition toDouble :: "rat \<Rightarrow> rat" where
  "toDouble x =
     (if x = 0 then 0
      else
        (let a = \<bar>x\<bar>;
             ulp = pow2 (max (binaryExponent a - 52) (- 1074));
             m = a / ulp;
             f = \<lfloor>m\<rfloor>;
             n = (if m - of_int f < 1 / 2 then f
                  else if 1 / 2 < m - of_int f then f + 1
                  else if even f then f else f + 1)
         in sgn x * of_int n * ulp))"

text \<open>
  \<open>budgetChars\<close>: the share as the binary64 value it is, the product rounded, then the
  floor. The character window is an integer, and is taken to be below \<open>2\<^sup>5\<^sup>3\<close>.
\<close>

definition budgetCharsOf :: "ContextPruningSettings \<Rightarrow> rat \<Rightarrow> nat" where
  "budgetCharsOf settings contextWindowTokens =
     nat (max 1 \<lfloor>toDouble (of_int (charWindowOf contextWindowTokens)
                              * toDouble (maxHistoryShare settings))\<rfloor>)"

text \<open>
  \<open>pruneContextMessages\<close>, on the array \<open>msgs\<close> with \<open>nxt\<close> the first free address: the
  result and the first address still free. Its first two steps are named: each gives the
  messages, the number of tool results it changed and the first free address.
\<close>

definition pruneLayer1 ::
  "Estimator \<Rightarrow> nat \<Rightarrow> MessageObj list \<Rightarrow> rat \<Rightarrow> ContextPruningSettings
     \<Rightarrow> MessageObj list \<times> nat \<times> nat" where
  "pruneLayer1 E nxt msgs contextWindowTokens settings =
     (let charWindow = charWindowOf contextWindowTokens;
          isPrunable = makeToolPrunablePredicate (Some (tools settings));
          totalChars = estimateMessagesChars E (map snd msgs);
          ratio = of_nat totalChars / of_int charWindow
      in if ratio > softTrimRatio settings then applySoftTrim nxt msgs settings isPrunable
         else (msgs, 0, nxt))"

definition pruneLayer2 ::
  "Estimator \<Rightarrow> MessageObj list \<times> nat \<times> nat \<Rightarrow> rat \<Rightarrow> ContextPruningSettings
     \<Rightarrow> MessageObj list \<times> nat \<times> nat" where
  "pruneLayer2 E l1 contextWindowTokens settings =
     (let charWindow = charWindowOf contextWindowTokens;
          isPrunable = makeToolPrunablePredicate (Some (tools settings));
          afterSoftTrimChars = estimateMessagesChars E (map snd (fst l1));
          afterSoftTrimRatio = of_nat afterSoftTrimChars / of_int charWindow
      in if afterSoftTrimRatio > hardClearRatio settings
         then applyHardClear E (snd (snd l1)) (fst l1) settings isPrunable charWindow
         else (fst l1, 0, snd (snd l1)))"

definition pruneContextMessages ::
  "Estimator \<Rightarrow> nat \<Rightarrow> MessageObj list \<Rightarrow> rat \<Rightarrow> RawContextPruningSettings option
     \<Rightarrow> PruneResult \<times> nat" where
  "pruneContextMessages E nxt msgs contextWindowTokens rawSettings =
     (let settings = resolvePruningSettings rawSettings;
          budgetChars = budgetCharsOf settings contextWindowTokens;
          l1 = pruneLayer1 E nxt msgs contextWindowTokens settings;
          l2 = pruneLayer2 E l1 contextWindowTokens settings;
          current = fst l2;
          afterClearChars = estimateMessagesChars E (map snd current)
      in if afterClearChars \<le> budgetChars
         then (\<lparr>pr_messages = current, pr_droppedMessages = [],
                pr_trimmedToolResults = fst (snd l1), pr_hardClearedToolResults = fst (snd l2),
                pr_totalChars = afterClearChars, pr_keptChars = afterClearChars,
                pr_droppedChars = 0, pr_budgetChars = budgetChars\<rparr>, snd (snd l2))
         else
           (case dropMessages E current (keepLastAssistants settings) budgetChars of
              (kept, dropped) \<Rightarrow>
                (let keptChars = estimateMessagesChars E (map snd kept)
                 in (\<lparr>pr_messages = kept, pr_droppedMessages = dropped,
                      pr_trimmedToolResults = fst (snd l1), pr_hardClearedToolResults = fst (snd l2),
                      pr_totalChars = afterClearChars, pr_keptChars = keptChars,
                      pr_droppedChars = afterClearChars - keptChars, pr_budgetChars = budgetChars\<rparr>,
                     snd (snd l2)))))"

text \<open>
  An estimator for the examples: a message counts the characters of its string, or of the
  texts, the tool arguments and the tool results of its blocks; a list counts the sum; a
  token is four characters, rounded up.
\<close>

fun blockChars :: "ContentBlock \<Rightarrow> nat" where
  "blockChars (TextBlock t) = length t"
| "blockChars (ToolUse i n a) = sum_list (map (\<lambda>(k, v). length k + length v) a)"
| "blockChars (ToolResult i n c) = length (case c of Some s \<Rightarrow> s | None \<Rightarrow> [])"

definition messageChars :: "Message \<Rightarrow> nat" where
  "messageChars m = (case content m of Str s \<Rightarrow> length s | Blocks bs \<Rightarrow> sum_list (map blockChars bs))"

definition charEstimator :: Estimator where
  "charEstimator =
     \<lparr>estimateMessageChars = messageChars,
      estimateMessagesChars = (\<lambda>ms. sum_list (map messageChars ms)),
      estimateMessageTokens = (\<lambda>m. of_int \<lceil>(of_nat (messageChars m) :: rat) / 4\<rceil>),
      estimateMessagesTokens = (\<lambda>ms. sum_list (map (\<lambda>m. of_int \<lceil>(of_nat (messageChars m) :: rat) / 4\<rceil>) ms))\<rparr>"

subsection \<open>Soft trim, as the specification words it\<close>

text \<open>
  The tool match predicate decides on a key of a tool result; a result without the key is
  prunable.
\<close>

definition prunableBy :: "(string \<Rightarrow> bool) \<Rightarrow> string option \<Rightarrow> bool" where
  "prunableBy isPrunable k = (\<not> truthy k \<or> isPrunable (the k))"

text \<open>
  The blocks layer 1 replaces: the tool results whose tool is prunable and whose string
  content is longer than \<open>maxChars\<close> and than the head and the tail together.
\<close>

fun softTrimTarget :: "SoftTrimSettings \<Rightarrow> (string \<Rightarrow> bool) \<Rightarrow> ContentBlock \<Rightarrow> bool" where
  "softTrimTarget st isPrunable (ToolResult tid nm (Some c)) =
     (prunableBy isPrunable nm \<and> length c > maxChars st \<and> headChars st + tailChars st < length c)"
| "softTrimTarget st isPrunable block = False"

text \<open>
  The replacement: the first \<open>headChars\<close> characters, a line of three dots, the last
  \<open>tailChars\<close> characters and the note.
\<close>

fun softTrimmed :: "SoftTrimSettings \<Rightarrow> ContentBlock \<Rightarrow> ContentBlock" where
  "softTrimmed st (ToolResult tid nm (Some c)) =
     ToolResult tid nm
       (Some (take (headChars st) c @ [CHR 0x0A] @ ''...'' @ [CHR 0x0A]
              @ drop (length c - tailChars st) c
              @ [CHR 0x0A, CHR 0x0A] @ ''[Tool result trimmed: kept first '' @ decimal (headChars st)
              @ '' chars and last '' @ decimal (tailChars st) @ '' chars of ''
              @ decimal (length c) @ '' chars.]''))"
| "softTrimmed st block = block"

definition softTrimmedMessage :: "SoftTrimSettings \<Rightarrow> (string \<Rightarrow> bool) \<Rightarrow> Message \<Rightarrow> Message" where
  "softTrimmedMessage st isPrunable m =
     (case content m of
        Str s \<Rightarrow> m
      | Blocks bs \<Rightarrow>
          m\<lparr>content := Blocks (map (\<lambda>b. if softTrimTarget st isPrunable b then softTrimmed st b else b) bs)\<rparr>)"

definition softTrimTargets :: "SoftTrimSettings \<Rightarrow> (string \<Rightarrow> bool) \<Rightarrow> Message \<Rightarrow> nat" where
  "softTrimTargets st isPrunable m =
     (case content m of Str s \<Rightarrow> 0 | Blocks bs \<Rightarrow> length (filter (softTrimTarget st isPrunable) bs))"

text \<open>
  The tool results of a message on which the predicate gives one verdict for the
  \<open>tool_use_id\<close> and for the tool's name.
\<close>

definition verdictsAgree :: "(string \<Rightarrow> bool) \<Rightarrow> Message \<Rightarrow> bool" where
  "verdictsAgree isPrunable m =
     (case content m of
        Str s \<Rightarrow> True
      | Blocks bs \<Rightarrow>
          list_all (\<lambda>b. case b of
                          ToolResult tid nm c \<Rightarrow> prunableBy isPrunable tid = prunableBy isPrunable nm
                        | _ \<Rightarrow> True) bs)"

subsection \<open>Message drop, as the specification words it\<close>

text \<open>The number of assistant messages of a list, and the estimated size of a run of messages.\<close>

definition assistants :: "Message list \<Rightarrow> nat" where
  "assistants ms = length (filter (\<lambda>m. role m = Assistant) ms)"

definition charsOf :: "Estimator \<Rightarrow> MessageObj list \<Rightarrow> nat" where
  "charsOf E ms = sum_list (map (\<lambda>m. estimateMessageChars E (snd m)) ms)"

subsection \<open>Reading a second pass of the pruner\<close>

text \<open>
  The number of tool results layer 1 trims in one message, and the tool results layer 2
  clears while the ratio is not under its limit: those with a content that is not empty
  and a prunable key.
\<close>

definition softTrimCount :: "ContextPruningSettings \<Rightarrow> (string \<Rightarrow> bool) \<Rightarrow> MessageObj \<Rightarrow> nat" where
  "softTrimCount S P msg =
     (case content (snd msg) of Str s \<Rightarrow> 0 | Blocks bs \<Rightarrow> snd (softTrimBlocks (softTrim S) P bs))"

fun hardClearCandidate :: "(string \<Rightarrow> bool) \<Rightarrow> ContentBlock \<Rightarrow> bool" where
  "hardClearCandidate P (ToolResult tid nm (Some c)) = (length c > 0 \<and> (\<not> truthy tid \<or> P (the tid)))"
| "hardClearCandidate P block = False"

definition candidateFree :: "(string \<Rightarrow> bool) \<Rightarrow> MessageObj \<Rightarrow> bool" where
  "candidateFree P msg =
     (case content (snd msg) of Str s \<Rightarrow> True | Blocks bs \<Rightarrow> \<forall>b \<in> set bs. \<not> hardClearCandidate P b)"

section \<open>Compaction (context/compaction.ts)\<close>

definition SAFETY_MARGIN :: rat where
  "SAFETY_MARGIN = 12 / 10"

definition DEFAULT_SUMMARY_FALLBACK :: string where
  "DEFAULT_SUMMARY_FALLBACK = ''No prior history.''"

definition SUMMARIZATION_SYSTEM_PROMPT :: string where
  "SUMMARIZATION_SYSTEM_PROMPT =
     ''You are a context summarization assistant. Your task is to read a conversation between a user and an AI coding assistant, then output a structured summary in the specified format.''
     @ [CHR 0x0A] @ ''''
     @ [CHR 0x0A] @ ''Do not continue the conversation. Do not answer questions from the conversation. Only output the structured summary.''"

definition SUMMARIZATION_PROMPT :: string where
  "SUMMARIZATION_PROMPT =
     ''The messages above are a conversation. Please generate a structured context checkpoint summary for subsequent models to continue working with.''
     @ [CHR 0x0A] @ ''''
     @ [CHR 0x0A] @ ''Please strictly use the following format:''
     @ [CHR 0x0A] @ ''''
     @ [CHR 0x0A] @ ''## Goals''
     @ [CHR 0x0A] @ ''[What does the user want to accomplish? If the session involves multiple tasks, list multiple goals]''
     @ [CHR 0x0A] @ ''''
     @ [CHR 0x0A] @ ''## Constraints and Preferences''
     @ [CHR 0x0A] @ ''- [Any constraints, preferences, or requirements mentioned by the user]''
     @ [CHR 0x0A] @ ''- [If none, write '' @ [CHR 0x22] @ ''(none)'' @ [CHR 0x22] @ '']''
     @ [CHR 0x0A] @ ''''
     @ [CHR 0x0A] @ ''## Progress''
     @ [CHR 0x0A] @ ''### Completed''
     @ [CHR 0x0A] @ ''- [x] [Completed tasks/changes]''
     @ [CHR 0x0A] @ ''''
     @ [CHR 0x0A] @ ''### In Progress''
     @ [CHR 0x0A] @ ''- [ ] [Current work in progress]''
     @ [CHR 0x0A] @ ''''
     @ [CHR 0x0A] @ ''### Blocked''
     @ [CHR 0x0A] @ ''- [If there are blocking issues, write them here]''
     @ [CHR 0x0A] @ ''''
     @ [CHR 0x0A] @ ''## Key Decisions''
     @ [CHR 0x0A] @ ''- **[Decision]**: [Brief rationale]''
     @ [CHR 0x0A] @ ''''
     @ [CHR 0x0A] @ ''## Next Steps''
     @ [CHR 0x0A] @ ''1. [List next steps in order]''
     @ [CHR 0x0A] @ ''''
     @ [CHR 0x0A] @ ''## Key Information''
     @ [CHR 0x0A] @ ''- [Any data, examples, or references needed to continue work]''
     @ [CHR 0x0A] @ ''- [If not applicable, write '' @ [CHR 0x22] @ ''(none)'' @ [CHR 0x22] @ '']''
     @ [CHR 0x0A] @ ''''
     @ [CHR 0x0A] @ ''Keep each section concise. Preserve exact file paths, function names, and error messages.''"

definition UPDATE_SUMMARIZATION_PROMPT :: string where
  "UPDATE_SUMMARIZATION_PROMPT =
     ''The messages above are new conversation content that needs to be incorporated into an existing summary. The existing summary is in the <previous-summary> tag.''
     @ [CHR 0x0A] @ ''''
     @ [CHR 0x0A] @ ''Please update the existing summary while preserving its information. Rules:''
     @ [CHR 0x0A] @ ''- Preserve all important information from the existing summary''
     @ [CHR 0x0A] @ ''- Append new progress, decisions, and context''
     @ [CHR 0x0A] @ ''- Update '' @ [CHR 0x22] @ ''Progress'' @ [CHR 0x22] @ '': move completed items from '' @ [CHR 0x22] @ ''In Progress'' @ [CHR 0x22] @ '' to '' @ [CHR 0x22] @ ''Completed'' @ [CHR 0x22]
     @ [CHR 0x0A] @ ''- Update '' @ [CHR 0x22] @ ''Next Steps'' @ [CHR 0x22] @ '' based on new progress''
     @ [CHR 0x0A] @ ''- Preserve exact file paths, function names, and error messages''
     @ [CHR 0x0A] @ ''- If some information is no longer relevant, it may be removed''
     @ [CHR 0x0A] @ ''''
     @ [CHR 0x0A] @ ''Please strictly use the following format:''
     @ [CHR 0x0A] @ ''''
     @ [CHR 0x0A] @ ''## Goals''
     @ [CHR 0x0A] @ ''[Preserve existing goals, supplement with new ones if necessary]''
     @ [CHR 0x0A] @ ''''
     @ [CHR 0x0A] @ ''## Constraints and Preferences''
     @ [CHR 0x0A] @ ''- [Preserve existing content, add newly discovered content]''
     @ [CHR 0x0A] @ ''''
     @ [CHR 0x0A] @ ''## Progress''
     @ [CHR 0x0A] @ ''### Completed''
     @ [CHR 0x0A] @ ''- [x] [Include previously completed items + newly completed items]''
     @ [CHR 0x0A] @ ''''
     @ [CHR 0x0A] @ ''### In Progress''
     @ [CHR 0x0A] @ ''- [ ] [Current work in progress]''
     @ [CHR 0x0A] @ ''''
     @ [CHR 0x0A] @ ''### Blocked''
     @ [CHR 0x0A] @ ''- [Current blocking issues; remove if resolved]''
     @ [CHR 0x0A] @ ''''
     @ [CHR 0x0A] @ ''## Key Decisions''
     @ [CHR 0x0A] @ ''- **[Decision]**: [Brief rationale] (preserve existing and supplement with new ones)''
     @ [CHR 0x0A] @ ''''
     @ [CHR 0x0A] @ ''## Next Steps''
     @ [CHR 0x0A] @ ''1. [Update next steps based on current state]''
     @ [CHR 0x0A] @ ''''
     @ [CHR 0x0A] @ ''## Key Information''
     @ [CHR 0x0A] @ ''- [Preserve important context, supplement with new information if necessary]''
     @ [CHR 0x0A] @ ''''
     @ [CHR 0x0A] @ ''Keep each section concise. Preserve exact file paths, function names, and error messages.''"

text \<open>\<open>Array.prototype.join\<close>.\<close>

fun js_join :: "string \<Rightarrow> string list \<Rightarrow> string" where
  "js_join sep [] = []"
| "js_join sep [x] = x"
| "js_join sep (x # y # rest) = x @ sep @ js_join sep (y # rest)"

definition roleName :: "Role \<Rightarrow> string" where
  "roleName r = (case r of User \<Rightarrow> ''user'' | Assistant \<Rightarrow> ''assistant'')"

text \<open>
  The summarizer is a function of the caller's that may fail. It is modelled by its answer
  to each call: \<open>summarize n p\<close> is what the call number \<open>n\<close> returns on the parameters \<open>p\<close>,
  \<open>Inl\<close> when its promise rejects; the functions that call it count the calls.
\<close>

record SummarizeParams =
  sp_system :: string
  sp_userPrompt :: string
  sp_maxTokens :: rat

type_synonym SummarizeFn = "nat \<Rightarrow> SummarizeParams \<Rightarrow> string + string"

record SummaryParams =
  s_messages :: "Message list"
  s_maxTokens :: rat
  s_maxChunkTokens :: rat
  s_contextWindow :: rat
  s_customInstructions :: "string option"
  s_previousSummary :: "string option"

text \<open>
  The loop of \<open>chunkMessagesByMaxTokens\<close>, with \<open>chunks\<close>, \<open>current\<close> and \<open>currentTokens\<close>
  as it goes.
\<close>

fun chunkLoop ::
  "Estimator \<Rightarrow> rat \<Rightarrow> Message list \<Rightarrow> Message list list \<Rightarrow> Message list \<Rightarrow> rat
     \<Rightarrow> Message list list" where
  "chunkLoop E maxTokens [] chunks current currentTokens =
     (if length current > 0 then chunks @ [current] else chunks)"
| "chunkLoop E maxTokens (message # rest) chunks current currentTokens =
     (let messageTokens = estimateMessageTokens E message;
          flush = (length current > 0 \<and> currentTokens + messageTokens > maxTokens);
          chunks1 = (if flush then chunks @ [current] else chunks);
          current1 = (if flush then [] else current) @ [message];
          tokens1 = (if flush then 0 else currentTokens) + messageTokens
      in if messageTokens > maxTokens
         then chunkLoop E maxTokens rest (chunks1 @ [current1]) [] 0
         else chunkLoop E maxTokens rest chunks1 current1 tokens1)"

definition chunkMessagesByMaxTokens :: "Estimator \<Rightarrow> Message list \<Rightarrow> rat \<Rightarrow> Message list list" where
  "chunkMessagesByMaxTokens E msgs maxTokens =
     (if msgs = [] then [] else chunkLoop E maxTokens msgs [] [] 0)"

definition isOversizedForSummary :: "Estimator \<Rightarrow> Message \<Rightarrow> rat \<Rightarrow> bool" where
  "isOversizedForSummary E msg contextWindow =
     (let tokens = estimateMessageTokens E msg * SAFETY_MARGIN
      in tokens > contextWindow * (5 / 10))"

definition extractUserText :: "Content \<Rightarrow> string" where
  "extractUserText c =
     (case c of
        Str s \<Rightarrow> s
      | Blocks bs \<Rightarrow> concat (map (\<lambda>b. case b of TextBlock t \<Rightarrow> t | _ \<Rightarrow> [])
                            (filter (\<lambda>b. case b of TextBlock t \<Rightarrow> True | _ \<Rightarrow> False) bs)))"

definition toolResultTexts :: "ContentBlock list \<Rightarrow> string list" where
  "toolResultTexts bs =
     filter (\<lambda>s. s \<noteq> [])
       (map (\<lambda>b. case b of ToolResult tid nm c \<Rightarrow> (case c of Some s \<Rightarrow> s | None \<Rightarrow> []) | _ \<Rightarrow> [])
          (filter (\<lambda>b. case b of ToolResult tid nm c \<Rightarrow> True | _ \<Rightarrow> False) bs))"

definition toolCallText :: "ContentBlock \<Rightarrow> string" where
  "toolCallText b =
     (case b of
        ToolUse tid nm args \<Rightarrow>
          (case nm of Some n \<Rightarrow> n | None \<Rightarrow> ''tool'') @ ''(''
            @ js_join '', '' (map (\<lambda>(k, v). k @ ''='' @ v) args) @ '')''
      | _ \<Rightarrow> [])"

text \<open>The lines \<open>serializeConversation\<close> pushes for one message.\<close>

definition serializeMessage :: "Message \<Rightarrow> string list" where
  "serializeMessage msg =
     (case role msg of
        User \<Rightarrow>
          (let t = extractUserText (content msg)
           in (if t \<noteq> [] then [''[User]: '' @ t] else [])
              @ (case content msg of
                   Str s \<Rightarrow> []
                 | Blocks bs \<Rightarrow> map (\<lambda>r. ''[Tool result]: '' @ r) (toolResultTexts bs)))
      | Assistant \<Rightarrow>
          (let textParts =
                 (case content msg of
                    Str s \<Rightarrow> [s]
                  | Blocks bs \<Rightarrow>
                      concat (map (\<lambda>b. case b of TextBlock t \<Rightarrow> (if t \<noteq> [] then [t] else []) | _ \<Rightarrow> []) bs));
               toolCalls =
                 (case content msg of
                    Str s \<Rightarrow> []
                  | Blocks bs \<Rightarrow>
                      map toolCallText (filter (\<lambda>b. case b of ToolUse tid nm args \<Rightarrow> True | _ \<Rightarrow> False) bs))
           in (if length textParts > 0 then [''[Assistant]: '' @ js_join [CHR 0x0A] textParts] else [])
              @ (if length toolCalls > 0 then [''[Assistant tool calls]: '' @ js_join ''; '' toolCalls] else [])))"

definition serializeConversation :: "Message list \<Rightarrow> string" where
  "serializeConversation msgs = js_join [CHR 0x0A, CHR 0x0A] (concat (map serializeMessage msgs))"

text \<open>\<open>generateSummary\<close> as call number \<open>n\<close> of the summarizer: its answer.\<close>

definition generateSummary ::
  "SummarizeFn \<Rightarrow> nat \<Rightarrow> Message list \<Rightarrow> rat \<Rightarrow> string option \<Rightarrow> string option \<Rightarrow> string + string" where
  "generateSummary summarize n msgs maxTokens customInstructions previousSummary =
     (let basePrompt0 = (if truthy previousSummary then UPDATE_SUMMARIZATION_PROMPT else SUMMARIZATION_PROMPT);
          basePrompt = (if truthy customInstructions
                        then basePrompt0 @ [CHR 0x0A, CHR 0x0A] @ ''Additional focus: '' @ the customInstructions
                        else basePrompt0);
          conversationText = serializeConversation msgs;
          prompt0 = ''<conversation>'' @ [CHR 0x0A] @ conversationText @ [CHR 0x0A] @ ''</conversation>''
                      @ [CHR 0x0A, CHR 0x0A];
          prompt1 = (if truthy previousSummary
                     then prompt0 @ ''<previous-summary>'' @ [CHR 0x0A] @ the previousSummary @ [CHR 0x0A]
                            @ ''</previous-summary>'' @ [CHR 0x0A, CHR 0x0A]
                     else prompt0)
      in summarize n \<lparr>sp_system = SUMMARIZATION_SYSTEM_PROMPT, sp_userPrompt = prompt1 @ basePrompt,
                       sp_maxTokens = maxTokens\<rparr>)"

text \<open>
  The loop of \<open>summarizeChunks\<close> over the chunks, from call number \<open>n\<close>: the summary or the
  error that left the loop, and the number of the next call.
\<close>

fun summarizeChunkLoop ::
  "SummarizeFn \<Rightarrow> nat \<Rightarrow> Message list list \<Rightarrow> rat \<Rightarrow> string option \<Rightarrow> string option
     \<Rightarrow> (string + string option) \<times> nat" where
  "summarizeChunkLoop summarize n [] maxTokens customInstructions summary = (Inr summary, n)"
| "summarizeChunkLoop summarize n (chunk # rest) maxTokens customInstructions summary =
     (case generateSummary summarize n chunk maxTokens customInstructions summary of
        Inl err \<Rightarrow> (Inl err, n + 1)
      | Inr s \<Rightarrow> summarizeChunkLoop summarize (n + 1) rest maxTokens customInstructions (Some s))"

definition summarizeChunks ::
  "Estimator \<Rightarrow> SummarizeFn \<Rightarrow> nat \<Rightarrow> SummaryParams \<Rightarrow> (string + string) \<times> nat" where
  "summarizeChunks E summarize n params =
     (if length (s_messages params) = 0
      then (Inr (case s_previousSummary params of Some p \<Rightarrow> p | None \<Rightarrow> DEFAULT_SUMMARY_FALLBACK), n)
      else
        (case summarizeChunkLoop summarize n
                (chunkMessagesByMaxTokens E (s_messages params) (s_maxChunkTokens params))
                (s_maxTokens params) (s_customInstructions params) (s_previousSummary params) of
           (Inl err, n') \<Rightarrow> (Inl err, n')
         | (Inr summary, n') \<Rightarrow>
             (Inr (case summary of Some s \<Rightarrow> s | None \<Rightarrow> DEFAULT_SUMMARY_FALLBACK), n')))"

definition oversizedNote :: "Estimator \<Rightarrow> Message \<Rightarrow> string" where
  "oversizedNote E msg =
     (let tokens = estimateMessageTokens E msg
      in ''[Large '' @ roleName (role msg) @ '' (~'' @ decimal_int \<lfloor>tokens / 1000 + 1 / 2\<rfloor>
           @ ''K tokens) omitted]'')"

definition summaryUnavailable :: "nat \<Rightarrow> string" where
  "summaryUnavailable count =
     ''Context contained '' @ decimal count @ '' messages. Summary unavailable due to size limits.''"

text \<open>\<open>summarizeWithFallback\<close>: the summary and the number of the next call of the summarizer.\<close>

definition summarizeWithFallback ::
  "Estimator \<Rightarrow> SummarizeFn \<Rightarrow> nat \<Rightarrow> SummaryParams \<Rightarrow> string \<times> nat" where
  "summarizeWithFallback E summarize n params =
     (if length (s_messages params) = 0
      then (case s_previousSummary params of Some p \<Rightarrow> p | None \<Rightarrow> DEFAULT_SUMMARY_FALLBACK, n)
      else
        (case summarizeChunks E summarize n params of
           (Inr summary, n1) \<Rightarrow> (summary, n1)
         | (Inl err, n1) \<Rightarrow>
             (let smallMessages =
                    filter (\<lambda>msg. \<not> isOversizedForSummary E msg (s_contextWindow params)) (s_messages params);
                  oversizedNotes =
                    map (oversizedNote E)
                      (filter (\<lambda>msg. isOversizedForSummary E msg (s_contextWindow params)) (s_messages params))
              in if length smallMessages > 0
                 then (case summarizeChunks E summarize n1 (params\<lparr>s_messages := smallMessages\<rparr>) of
                         (Inr partial, n2) \<Rightarrow>
                           (partial @ (if length oversizedNotes > 0
                                       then [CHR 0x0A, CHR 0x0A] @ js_join [CHR 0x0A] oversizedNotes
                                       else []), n2)
                       | (Inl err2, n2) \<Rightarrow> (summaryUnavailable (length (s_messages params)), n2))
                 else (summaryUnavailable (length (s_messages params)), n1))))"

section \<open>Provider errors and retry (provider/errors.ts)\<close>

definition RATE_LIMIT_PATTERNS :: "string list" where
  "RATE_LIMIT_PATTERNS =
     [''rate_limit'', ''too many requests'', ''429'', ''exceeded quota'', ''resource exhausted'',
      ''quota exceeded'', ''resource_exhausted'', ''usage limit'']"

definition CONTEXT_OVERFLOW_PATTERNS :: "string list" where
  "CONTEXT_OVERFLOW_PATTERNS =
     [''request_too_large'', ''request exceeds the maximum size'', ''context length exceeded'',
      ''maximum context length'', ''prompt is too long'', ''exceeds model context window'',
      ''context overflow'']"

definition matchesAnyPattern :: "string \<Rightarrow> string list \<Rightarrow> bool" where
  "matchesAnyPattern message patterns =
     (let lower = js_toLowerCase message in list_ex (\<lambda>p. js_includes lower p) patterns)"

definition isContextOverflowError :: "string \<Rightarrow> bool" where
  "isContextOverflowError message =
     (if message = [] then False
      else if matchesAnyPattern message CONTEXT_OVERFLOW_PATTERNS then True
      else (let lower = js_toLowerCase message
            in js_includes lower ''413'' \<and> js_includes lower ''too large''))"

definition isRateLimitError :: "string \<Rightarrow> bool" where
  "isRateLimitError message = (message \<noteq> [] \<and> matchesAnyPattern message RATE_LIMIT_PATTERNS)"

section \<open>The agent loop (agent-loop.ts)\<close>

text \<open>
  An error the loop sees is kept as the text \<open>describeError\<close> gives for it. What the loop
  awaits from outside is modelled by a script of the surroundings: every question the
  loop puts to them (a call of the provider, of a tool, of \<open>getSteeringMessages\<close>, a read of
  \<open>abortSignal.aborted\<close>, of \<open>Math.random\<close>) is numbered by a counter, \<open>ls_tick\<close>, and the
  script gives the answer to question number \<open>n\<close>. \<open>Date.now()\<close> is read from the script at
  the current count. Appending to the session log and polling the steering queue do not
  fail.
\<close>

record ToolCall =
  tc_id :: string
  tc_name :: string
  tc_input :: json

text \<open>
  What a tool's \<open>execute\<close> may throw (or reject with), as far as the \<open>catch\<close> of the loop can
  tell the values apart: a value whose \<open>message\<close> property reads as a text in a template
  string (every \<open>Error\<close>), any other value but \<open>null\<close> and \<open>undefined\<close> (its \<open>message\<close> is
  \<open>undefined\<close>), \<open>null\<close>, and \<open>undefined\<close>.
\<close>

datatype Thrown =
    ThrownWithMessage string
  | ThrownWithoutMessage
  | ThrownNull
  | ThrownUndefined

record Tool =
  tool_name :: string
  tool_description :: string
  tool_execute :: "nat \<Rightarrow> json \<Rightarrow> Thrown + string"

datatype LLMEvent =
    TextDelta string
  | TextEnd string
  | ToolcallStart
  | ToolcallEnd string string json
  | OtherLLMEvent

record LLMResponse =
  llm_events :: "LLMEvent list"
  llm_error :: "string option"

record Env =
  env_stream :: "nat \<Rightarrow> string \<Rightarrow> Message list \<Rightarrow> LLMResponse"
  env_steering :: "nat \<Rightarrow> Message list"
  env_followUp :: "(nat \<Rightarrow> Message list) option"
  env_aborted :: "nat \<Rightarrow> bool"
  env_now :: "nat \<Rightarrow> nat"
  env_random :: "nat \<Rightarrow> rat"
  env_prepareCompaction :: "nat \<Rightarrow> Message list \<Rightarrow> string + (string option \<times> Message option)"

datatype AgentEvent =
    AgentStart string string string
  | AgentEnd string "Message list"
  | AgentError string string
  | TurnStart nat
  | TurnEnd nat
  | MessageDelta string
  | MessageEnd Message string
  | ToolExecutionStart string string json
  | ToolExecutionEnd string string string bool
  | ToolSkipped string string
  | Steering nat
  | CompactionEvent nat nat
  | ContextOverflowCompact string
  | Retry nat rat string

record 's AgentLoopParams =
  runId :: string
  sessionKey :: string
  systemPrompt :: string
  toolsForRun :: "Tool list"
  maxTurns :: nat
  contextTokens :: rat
  appendMessage :: "string \<Rightarrow> Message \<Rightarrow> nat \<Rightarrow> 's \<Rightarrow> 's"

record 's LoopState =
  ls_tick :: nat
  ls_events :: "AgentEvent list"
  ls_store :: 's
  ls_currentMessages :: "Message list"
  ls_compactionSummary :: "Message option"
  ls_turns :: nat
  ls_totalToolCalls :: nat
  ls_finalText :: string
  ls_overflowCompactionAttempted :: bool
  ls_pendingMessages :: "Message list"
  ls_hasMoreToolCalls :: bool

definition skipToolCall :: "ToolCall \<Rightarrow> ContentBlock" where
  "skipToolCall call =
     ToolResult (Some (tc_id call)) (Some (tc_name call)) (Some ''Skipped due to queued user message.'')"

subsection \<open>The provider call\<close>

text \<open>The buffers of one attempt: \<open>assistantContent\<close>, \<open>toolCalls\<close>, \<open>turnTextParts\<close>.\<close>

record TurnBuffers =
  assistantContent :: "ContentBlock list"
  toolCalls :: "ToolCall list"
  turnTextParts :: "string list"

text \<open>
  The \<open>for await\<close> over the provider's events: the counter, the events pushed and the
  buffers. Before each event the abort flag is read.
\<close>

fun consumeEvents ::
  "Env \<Rightarrow> LLMEvent list \<Rightarrow> nat \<times> AgentEvent list \<times> TurnBuffers \<Rightarrow> nat \<times> AgentEvent list \<times> TurnBuffers" where
  "consumeEvents env [] acc = acc"
| "consumeEvents env (ev # rest) (t, out, buf) =
     (if env_aborted env t then (t + 1, out, buf)
      else
        (case ev of
           TextDelta delta \<Rightarrow> consumeEvents env rest (t + 1, out @ [MessageDelta delta], buf)
         | TextEnd c \<Rightarrow>
             consumeEvents env rest
               (t + 1, out,
                buf\<lparr>turnTextParts := turnTextParts buf @ [c],
                    assistantContent := assistantContent buf @ [TextBlock c]\<rparr>)
         | ToolcallStart \<Rightarrow> consumeEvents env rest (t + 1, out, buf)
         | ToolcallEnd cid cname cargs \<Rightarrow>
             consumeEvents env rest
               (t + 1, out,
                buf\<lparr>assistantContent := assistantContent buf @ [ToolUse (Some cid) (Some cname) cargs],
                    toolCalls := toolCalls buf @ [\<lparr>tc_id = cid, tc_name = cname, tc_input = cargs\<rparr>]\<rparr>)
         | OtherLLMEvent \<Rightarrow> consumeEvents env rest (t + 1, out, buf)))"

text \<open>
  One attempt, the function \<open>retryAsync\<close> is given: the buffers start empty, the provider
  is called, its events are consumed, and its result is awaited through \<open>abortable\<close>.
\<close>

definition llmAttempt ::
  "Env \<Rightarrow> string \<Rightarrow> Message list \<Rightarrow> nat \<Rightarrow> AgentEvent list
     \<Rightarrow> (string + unit) \<times> nat \<times> AgentEvent list \<times> TurnBuffers" where
  "llmAttempt env sysPrompt messagesForModel t out =
     (let response = env_stream env t sysPrompt messagesForModel;
          (t1, out1, buf) =
             consumeEvents env (llm_events response)
               (t + 1, out, \<lparr>assistantContent = [], toolCalls = [], turnTextParts = []\<rparr>)
      in if env_aborted env t1 then (Inl ''Operation aborted'', t1 + 1, out1, buf)
         else (case llm_error response of
                 Some err \<Rightarrow> (Inl err, t1 + 1, out1, buf)
               | None \<Rightarrow> (Inr (), t1 + 1, out1, buf)))"

text \<open>
  \<open>retryAsync\<close> with the options of the loop: 3 attempts, delays from 300 to 30000
  milliseconds, jitter 0.1, a retry only for a rate limit and only while not aborted, a
  \<open>retry\<close> event before each sleep. The first argument counts the attempts left, this one
  included.
\<close>

definition retryDelay :: "nat \<Rightarrow> rat \<Rightarrow> rat" where
  "retryDelay attempt rnd =
     (let minDelayMs = 300; maxDelayMs = 30000; jitter = 1 / 10;
          delay0 = minDelayMs * 2 ^ (attempt - 1);
          delay1 = (if jitter > 0 then delay0 * (1 + (rnd * 2 - 1) * jitter) else delay0)
      in max (min delay1 maxDelayMs) minDelayMs)"

fun retryLlm ::
  "nat \<Rightarrow> nat \<Rightarrow> Env \<Rightarrow> string \<Rightarrow> Message list \<Rightarrow> nat \<Rightarrow> AgentEvent list
     \<Rightarrow> (string + unit) \<times> nat \<times> AgentEvent list \<times> TurnBuffers" where
  "retryLlm 0 attempt env sysPrompt messagesForModel t out =
     (Inl [], t, out, \<lparr>assistantContent = [], toolCalls = [], turnTextParts = []\<rparr>)"
| "retryLlm (Suc left) attempt env sysPrompt messagesForModel t out =
     (case llmAttempt env sysPrompt messagesForModel t out of
        (Inr u, t1, out1, buf) \<Rightarrow> (Inr u, t1, out1, buf)
      | (Inl err, t1, out1, buf) \<Rightarrow>
          if left = 0 then (Inl err, t1, out1, buf)
          else if env_aborted env t1 then (Inl err, t1 + 1, out1, buf)
          else if \<not> isRateLimitError err then (Inl err, t1 + 1, out1, buf)
          else retryLlm left (attempt + 1) env sysPrompt messagesForModel (t1 + 2)
                 (out1 @ [Retry attempt (retryDelay attempt (env_random env (t1 + 1))) err]))"

definition llmCallWithRetry ::
  "Env \<Rightarrow> string \<Rightarrow> Message list \<Rightarrow> nat \<Rightarrow> AgentEvent list
     \<Rightarrow> (string + unit) \<times> nat \<times> AgentEvent list \<times> TurnBuffers" where
  "llmCallWithRetry env sysPrompt messagesForModel t out =
     retryLlm 3 1 env sysPrompt messagesForModel t out"

subsection \<open>Tool execution\<close>

text \<open>
  The body of the \<open>for\<close> loop for one call, up to the poll of the steering queue: the text
  that goes into the tool result, and whether the tool is unknown. The \<open>catch\<close> reads
  \<open>(err as Error).message\<close>: on \<open>null\<close> and \<open>undefined\<close> that read throws a \<open>TypeError\<close> inside
  the handler, which leaves the \<open>for\<close> loop (\<open>Inl\<close>, with the message of the \<open>TypeError\<close>).
\<close>

definition findTool :: "Tool list \<Rightarrow> string \<Rightarrow> Tool option" where
  "findTool tls n = find (\<lambda>t. tool_name t = n) tls"

definition readOfNullish :: "string \<Rightarrow> string" where
  "readOfNullish v =
     ''Cannot read properties of '' @ v @ '' (reading '' @ [CHR 0x27] @ ''message'' @ [CHR 0x27] @ '')''"

definition toolResultText :: "Tool list \<Rightarrow> ToolCall \<Rightarrow> nat \<Rightarrow> string + string" where
  "toolResultText tls call t =
     (case findTool tls (tc_name call) of
        Some tool \<Rightarrow>
          (case tool_execute tool t (tc_input call) of
             Inr r \<Rightarrow> Inr r
           | Inl (ThrownWithMessage message) \<Rightarrow> Inr (''Execution error: '' @ message)
           | Inl ThrownWithoutMessage \<Rightarrow> Inr ''Execution error: undefined''
           | Inl ThrownNull \<Rightarrow> Inl (readOfNullish ''null'')
           | Inl ThrownUndefined \<Rightarrow> Inl (readOfNullish ''undefined''))
      | None \<Rightarrow> Inr (''Unknown tool: '' @ tc_name call))"

definition toolEndEvent :: "Tool list \<Rightarrow> ToolCall \<Rightarrow> string \<Rightarrow> AgentEvent" where
  "toolEndEvent tls call r =
     ToolExecutionEnd (tc_id call) (tc_name call)
       (if length r > 500 then take 500 r @ ''...'' else r)
       (findTool tls (tc_name call) = None)"

record ToolPhase =
  tp_tick :: nat
  tp_events :: "AgentEvent list"
  tp_toolResults :: "ContentBlock list"
  tp_steeringMessages :: "Message list option"
  tp_totalToolCalls :: nat
  tp_thrown :: "string option"

text \<open>
  The \<open>for\<close> loop over the tool calls, with the steering check after each tool. When the
  \<open>catch\<close> of a call throws, the loop is left after the \<open>tool_execution_start\<close> of that call
  (\<open>tp_thrown\<close>).
\<close>

fun executeToolCalls :: "Tool list \<Rightarrow> Env \<Rightarrow> ToolCall list \<Rightarrow> ToolPhase \<Rightarrow> ToolPhase" where
  "executeToolCalls tls env [] ph = ph"
| "executeToolCalls tls env (call # remaining) ph =
     (let startEv = ToolExecutionStart (tc_id call) (tc_name call) (tc_input call)
      in case toolResultText tls call (tp_tick ph) of
           Inl typeError \<Rightarrow>
             ph\<lparr>tp_tick := tp_tick ph + 1,
                tp_events := tp_events ph @ [startEv],
                tp_thrown := Some typeError\<rparr>
         | Inr r \<Rightarrow>
             (let endEv = toolEndEvent tls call r;
                  resultBlock = ToolResult (Some (tc_id call)) (Some (tc_name call)) (Some r);
                  steering = env_steering env (tp_tick ph + 1)
              in if length steering > 0
                 then ph\<lparr>tp_tick := tp_tick ph + 2,
                         tp_events := tp_events ph @ [startEv, endEv]
                            @ map (\<lambda>skipped. ToolSkipped (tc_id skipped) (tc_name skipped)) remaining
                            @ [Steering (length steering)],
                         tp_toolResults := tp_toolResults ph @ [resultBlock] @ map skipToolCall remaining,
                         tp_steeringMessages := Some steering,
                         tp_totalToolCalls := tp_totalToolCalls ph + 1\<rparr>
                 else executeToolCalls tls env remaining
                        (ph\<lparr>tp_tick := tp_tick ph + 2,
                            tp_events := tp_events ph @ [startEv, endEv],
                            tp_toolResults := tp_toolResults ph @ [resultBlock],
                            tp_totalToolCalls := tp_totalToolCalls ph + 1\<rparr>)))"

subsection \<open>One turn\<close>

text \<open>
  The messages the pruner keeps for the model. The array of the loop holds one object per
  message (the loop only pushes messages it made or was handed), and the messages kept do
  not depend on the addresses.
\<close>

definition prunedForModel :: "Estimator \<Rightarrow> rat \<Rightarrow> Message list \<Rightarrow> Message list" where
  "prunedForModel E ctxTokens msgs =
     map snd (pr_messages (fst (pruneContextMessages E (length msgs) (zip [0..<length msgs] msgs)
                                  ctxTokens None)))"

text \<open>The head of an iteration: the counter, \<open>turn_start\<close>, the pending messages injected.\<close>

definition beginTurn :: "'s AgentLoopParams \<Rightarrow> Env \<Rightarrow> 's LoopState \<Rightarrow> 's LoopState" where
  "beginTurn p env s =
     s\<lparr>ls_turns := ls_turns s + 1,
       ls_events := ls_events s @ [TurnStart (ls_turns s + 1)],
       ls_store := foldl (\<lambda>st msg. appendMessage p (sessionKey p) msg (env_now env (ls_tick s)) st)
                     (ls_store s) (ls_pendingMessages s),
       ls_currentMessages := ls_currentMessages s @ ls_pendingMessages s,
       ls_pendingMessages := []\<rparr>"

text \<open>
  The \<open>catch\<close> of the provider call. \<open>None\<close> with the new state is \<open>continue\<close>; \<open>Some\<close> is
  the error thrown on.
\<close>

definition handleLlmError ::
  "'s AgentLoopParams \<Rightarrow> Env \<Rightarrow> 's LoopState \<Rightarrow> string \<Rightarrow> string option \<times> 's LoopState" where
  "handleLlmError p env s errorText =
     (if isContextOverflowError errorText \<and> \<not> ls_overflowCompactionAttempted s
      then
        (let s1 = s\<lparr>ls_overflowCompactionAttempted := True,
                    ls_events := ls_events s @ [ContextOverflowCompact errorText],
                    ls_tick := ls_tick s + 1\<rparr>
         in case env_prepareCompaction env (ls_tick s) (ls_currentMessages s) of
              Inl thrown \<Rightarrow> (Some thrown, s1)
            | Inr (summary, summaryMessage) \<Rightarrow>
                if truthy summary \<and> summaryMessage \<noteq> None
                then (None, s1\<lparr>ls_compactionSummary := summaryMessage, ls_turns := ls_turns s - 1\<rparr>)
                else (Some errorText, s1))
      else (Some errorText, s))"

text \<open>
  The rest of the iteration after the provider call succeeded with the buffers \<open>buf\<close>.
  \<open>Some\<close> is the error thrown out of the \<open>for\<close> loop over the tool calls.
\<close>

definition finishTurn ::
  "'s AgentLoopParams \<Rightarrow> Env \<Rightarrow> 's LoopState \<Rightarrow> TurnBuffers \<Rightarrow> string option \<times> 's LoopState" where
  "finishTurn p env s buf =
     (let assistantMsg = \<lparr>role = Assistant, content = Blocks (assistantContent buf),
                          timestamp = env_now env (ls_tick s)\<rparr>;
          store1 = appendMessage p (sessionKey p) assistantMsg (env_now env (ls_tick s)) (ls_store s);
          current1 = ls_currentMessages s @ [assistantMsg];
          turnText = concat (turnTextParts buf);
          events1 = ls_events s @ (if turnText \<noteq> [] then [MessageEnd assistantMsg turnText] else [])
      in if \<not> length (toolCalls buf) > 0
         then (None,
               s\<lparr>ls_store := store1, ls_currentMessages := current1,
                 ls_hasMoreToolCalls := False, ls_finalText := turnText,
                 ls_events := events1 @ [TurnEnd (ls_turns s)],
                 ls_pendingMessages := env_steering env (ls_tick s),
                 ls_tick := ls_tick s + 1\<rparr>)
         else
           (let ph = executeToolCalls (toolsForRun p) env (toolCalls buf)
                       \<lparr>tp_tick = ls_tick s, tp_events = [], tp_toolResults = [],
                        tp_steeringMessages = None, tp_totalToolCalls = 0, tp_thrown = None\<rparr>
            in case tp_thrown ph of
                 Some typeError \<Rightarrow>
                   (Some typeError,
                    s\<lparr>ls_store := store1, ls_currentMessages := current1,
                      ls_hasMoreToolCalls := True,
                      ls_totalToolCalls := ls_totalToolCalls s + tp_totalToolCalls ph,
                      ls_events := events1 @ tp_events ph,
                      ls_tick := tp_tick ph\<rparr>)
               | None \<Rightarrow>
                   (let resultMsg = \<lparr>role = User, content = Blocks (tp_toolResults ph),
                                     timestamp = env_now env (tp_tick ph)\<rparr>;
                        store2 = appendMessage p (sessionKey p) resultMsg (env_now env (tp_tick ph)) store1
                    in (None,
                        s\<lparr>ls_store := store2, ls_currentMessages := current1 @ [resultMsg],
                          ls_hasMoreToolCalls := True,
                          ls_totalToolCalls := ls_totalToolCalls s + tp_totalToolCalls ph,
                          ls_events := events1 @ tp_events ph @ [TurnEnd (ls_turns s)],
                          ls_pendingMessages :=
                            (case tp_steeringMessages ph of
                               Some st \<Rightarrow> st
                             | None \<Rightarrow> env_steering env (tp_tick ph)),
                          ls_tick := (case tp_steeringMessages ph of
                                        Some st \<Rightarrow> tp_tick ph
                                      | None \<Rightarrow> tp_tick ph + 1)\<rparr>))))"

text \<open>What the provider is sent: the summary of the compaction, if any, and what the pruner keeps.\<close>

definition messagesForModel :: "Estimator \<Rightarrow> 's AgentLoopParams \<Rightarrow> 's LoopState \<Rightarrow> Message list" where
  "messagesForModel E p s =
     (case ls_compactionSummary s of
        Some summaryMsg \<Rightarrow> summaryMsg # prunedForModel E (contextTokens p) (ls_currentMessages s)
      | None \<Rightarrow> prunedForModel E (contextTokens p) (ls_currentMessages s))"

text \<open>The body of the inner loop, after its two \<open>break\<close> tests.\<close>

definition turnBody ::
  "Estimator \<Rightarrow> 's AgentLoopParams \<Rightarrow> Env \<Rightarrow> 's LoopState \<Rightarrow> string option \<times> 's LoopState" where
  "turnBody E p env s =
     (let s1 = beginTurn p env s
      in case llmCallWithRetry env (systemPrompt p) (messagesForModel E p s1) (ls_tick s1) (ls_events s1) of
           (Inl errorText, t, out, buf) \<Rightarrow>
             handleLlmError p env (s1\<lparr>ls_tick := t, ls_events := out\<rparr>) errorText
         | (Inr u, t, out, buf) \<Rightarrow> finishTurn p env (s1\<lparr>ls_tick := t, ls_events := out\<rparr>) buf)"

subsection \<open>The two loops\<close>

text \<open>
  What bounds the loops: an iteration that does not throw either counts a turn or is the
  one retry after a compaction, which sets \<open>overflowCompactionAttempted\<close> for good.
\<close>

definition loopMeasure :: "'s AgentLoopParams \<Rightarrow> 's LoopState \<Rightarrow> nat" where
  "loopMeasure p s =
     4 * (maxTurns p - ls_turns s) + (if ls_overflowCompactionAttempted s then 0 else 2)
       + (if ls_hasMoreToolCalls s \<or> ls_pendingMessages s \<noteq> [] then 0 else 1)"

lemma turnBody_progress:
  assumes "turnBody E p env s = (None, s')"
  shows "(ls_turns s' = ls_turns s + 1
            \<and> (ls_overflowCompactionAttempted s \<longrightarrow> ls_overflowCompactionAttempted s'))
         \<or> (ls_turns s' = ls_turns s \<and> \<not> ls_overflowCompactionAttempted s
              \<and> ls_overflowCompactionAttempted s')"
proof -
  let ?s1 = "beginTurn p env s"
  have b: "ls_turns ?s1 = ls_turns s + 1"
    "ls_overflowCompactionAttempted ?s1 = ls_overflowCompactionAttempted s"
    by (simp_all add: beginTurn_def)
  obtain r t out buf where c: "llmCallWithRetry env (systemPrompt p) (messagesForModel E p ?s1)
         (ls_tick ?s1) (ls_events ?s1) = (r, t, out, buf)"
    by (metis prod_cases4)
  show ?thesis
  proof (cases r)
    case (Inl errorText)
    with assms c have "handleLlmError p env (?s1\<lparr>ls_tick := t, ls_events := out\<rparr>) errorText = (None, s')"
      by (simp add: turnBody_def Let_def)
    then show ?thesis using b
      by (auto simp: handleLlmError_def Let_def split: if_splits sum.splits prod.splits)
  next
    case (Inr u)
    with assms c have "finishTurn p env (?s1\<lparr>ls_tick := t, ls_events := out\<rparr>) buf = (None, s')"
      by (simp add: turnBody_def Let_def)
    then show ?thesis using b
      by (auto simp: finishTurn_def Let_def split: if_splits option.splits)
  qed
qed

text \<open>
  The outer and the inner loop as one recursion on the state: at the head of the inner
  loop when \<open>hasMoreToolCalls\<close> or a pending message is there, at the follow-up check of
  the outer loop otherwise. The result is the error thrown, if any, and the last state.
\<close>

function agentLoop ::
  "Estimator \<Rightarrow> 's AgentLoopParams \<Rightarrow> Env \<Rightarrow> 's LoopState \<Rightarrow> string option \<times> 's LoopState" where
  "agentLoop E p env s =
     (if ls_hasMoreToolCalls s \<or> length (ls_pendingMessages s) > 0
      then
        (if ls_turns s \<ge> maxTurns p then (None, s)
         else if env_aborted env (ls_tick s) then (None, s\<lparr>ls_tick := ls_tick s + 1\<rparr>)
         else (case turnBody E p env (s\<lparr>ls_tick := ls_tick s + 1\<rparr>) of
                 (Some thrown, s') \<Rightarrow> (Some thrown, s')
               | (None, s') \<Rightarrow> agentLoop E p env s'))
      else
        (case env_followUp env of
           None \<Rightarrow> (None, s)
         | Some getFollowUpMessages \<Rightarrow>
             (let followUp = getFollowUpMessages (ls_tick s)
              in if length followUp > 0
                 then agentLoop E p env
                        (s\<lparr>ls_pendingMessages := followUp, ls_hasMoreToolCalls := True,
                           ls_tick := ls_tick s + 1\<rparr>)
                 else (None, s\<lparr>ls_tick := ls_tick s + 1\<rparr>))))"
  by pat_completeness auto
termination
proof (relation "measure (\<lambda>(E, p, env, s). loopMeasure p s)")
  show "wf (measure (\<lambda>(E, p, env, s). loopMeasure p s))" by simp
next
  fix E :: Estimator and p :: "'s AgentLoopParams" and env :: Env and s y :: "'s LoopState"
    and x :: "string option"
  assume a: "ls_hasMoreToolCalls s \<or> 0 < length (ls_pendingMessages s)"
    "\<not> maxTurns p \<le> ls_turns s"
    "(x, y) = turnBody E p env (s\<lparr>ls_tick := ls_tick s + 1\<rparr>)" "x = None"
  then have "turnBody E p env (s\<lparr>ls_tick := ls_tick s + 1\<rparr>) = (None, y)" by simp
  from turnBody_progress[OF this] a(1,2)
  show "((E, p, env, y), E, p, env, s) \<in> measure (\<lambda>(E, p, env, s). loopMeasure p s)"
    by (auto simp: loopMeasure_def)
next
  fix E :: Estimator and p :: "'s AgentLoopParams" and env :: Env and s :: "'s LoopState"
    and x2 x
  assume "\<not> (ls_hasMoreToolCalls s \<or> 0 < length (ls_pendingMessages s))"
    "env_followUp env = Some x2" "x = x2 (ls_tick s)" "0 < length x"
  then show "((E, p, env, s\<lparr>ls_pendingMessages := x, ls_hasMoreToolCalls := True,
                  ls_tick := ls_tick s + 1\<rparr>), E, p, env, s)
             \<in> measure (\<lambda>(E, p, env, s). loopMeasure p s)"
    by (auto simp: loopMeasure_def)
qed

declare agentLoop.simps [simp del]

text \<open>
  \<open>runAgentLoop\<close>: the steering queue is polled once, the loops run, and the stream ends
  with \<open>agent_end\<close>, or with \<open>agent_error\<close> when an error was thrown. The result is the
  error, if any, and the last state; its \<open>ls_events\<close> are the events of the stream.
\<close>

definition initialLoopState :: "Env \<Rightarrow> 's \<Rightarrow> Message list \<Rightarrow> Message option \<Rightarrow> 's LoopState" where
  "initialLoopState env store msgs summaryMsg =
     \<lparr>ls_tick = 1, ls_events = [], ls_store = store, ls_currentMessages = msgs,
      ls_compactionSummary = summaryMsg, ls_turns = 0, ls_totalToolCalls = 0, ls_finalText = [],
      ls_overflowCompactionAttempted = False, ls_pendingMessages = env_steering env 0,
      ls_hasMoreToolCalls = True\<rparr>"

definition runAgentLoop ::
  "Estimator \<Rightarrow> 's AgentLoopParams \<Rightarrow> Env \<Rightarrow> 's \<Rightarrow> Message list \<Rightarrow> Message option
     \<Rightarrow> string option \<times> 's LoopState" where
  "runAgentLoop E p env store msgs summaryMsg =
     (case agentLoop E p env (initialLoopState env store msgs summaryMsg) of
        (None, s) \<Rightarrow>
          (None, s\<lparr>ls_events := ls_events s @ [AgentEnd (runId p) (ls_currentMessages s)]\<rparr>)
      | (Some thrown, s) \<Rightarrow>
          (Some thrown, s\<lparr>ls_events := ls_events s @ [AgentError (runId p) thrown]\<rparr>))"

subsection \<open>Reading the tool phase\<close>

text \<open>
  Names for what the statements about the tool phase speak of. \<open>executedCount env t calls\<close>
  is the number of calls run when the phase starts at the counter \<open>t\<close>: the calls up to
  the first one after which the steering queue is found non-empty. The \<open>i\<close>-th call runs
  at the counter \<open>t + 2 * i\<close>, and the queue is polled right after it.
\<close>

fun executedCount :: "Env \<Rightarrow> nat \<Rightarrow> ToolCall list \<Rightarrow> nat" where
  "executedCount env t [] = 0"
| "executedCount env t (call # remaining) =
     (if env_steering env (t + 1) \<noteq> [] then 1 else 1 + executedCount env (t + 2) remaining)"

definition steeringAfter :: "Env \<Rightarrow> nat \<Rightarrow> nat \<Rightarrow> Message list" where
  "steeringAfter env t n = (if n = 0 then [] else env_steering env (t + 2 * n - 1))"

text \<open>
  \<open>nullishThrow tls call t\<close>: the tool of the call is in the list and its \<open>execute\<close>, at the
  counter \<open>t\<close>, throws \<open>null\<close> or \<open>undefined\<close>. \<open>resultOf\<close> is the text of the tool result
  otherwise.
\<close>

definition nullishThrow :: "Tool list \<Rightarrow> ToolCall \<Rightarrow> nat \<Rightarrow> bool" where
  "nullishThrow tls call t =
     (case findTool tls (tc_name call) of
        None \<Rightarrow> False
      | Some tool \<Rightarrow> tool_execute tool t (tc_input call) = Inl ThrownNull
                     \<or> tool_execute tool t (tc_input call) = Inl ThrownUndefined)"

text \<open>A tool list none of whose tools ever throws \<open>null\<close> or \<open>undefined\<close>.\<close>

definition neverNullish :: "Tool list \<Rightarrow> bool" where
  "neverNullish tls =
     (\<forall>tool \<in> set tls. \<forall>t args. tool_execute tool t args \<noteq> Inl ThrownNull
                                   \<and> tool_execute tool t args \<noteq> Inl ThrownUndefined)"

definition resultOf :: "Tool list \<Rightarrow> ToolCall \<Rightarrow> nat \<Rightarrow> string" where
  "resultOf tls call t = (case toolResultText tls call t of Inr r \<Rightarrow> r | Inl typeError \<Rightarrow> [])"

definition realResult :: "Tool list \<Rightarrow> ToolCall \<Rightarrow> nat \<Rightarrow> ContentBlock" where
  "realResult tls call t =
     ToolResult (Some (tc_id call)) (Some (tc_name call)) (Some (resultOf tls call t))"

definition shownResult :: "string \<Rightarrow> string" where
  "shownResult r = (if length r > 500 then take 500 r @ ''...'' else r)"

definition executionEvents :: "Tool list \<Rightarrow> ToolCall \<Rightarrow> nat \<Rightarrow> AgentEvent list" where
  "executionEvents tls call t =
     [ToolExecutionStart (tc_id call) (tc_name call) (tc_input call),
      ToolExecutionEnd (tc_id call) (tc_name call)
        (shownResult (resultOf tls call t))
        (\<not> (\<exists>tool \<in> set tls. tool_name tool = tc_name call))]"

definition skippedEvents :: "ToolCall list \<Rightarrow> AgentEvent list" where
  "skippedEvents calls = map (\<lambda>skipped. ToolSkipped (tc_id skipped) (tc_name skipped)) calls"

definition startPhase :: "nat \<Rightarrow> ToolPhase" where
  "startPhase t = \<lparr>tp_tick = t, tp_events = [], tp_toolResults = [],
                   tp_steeringMessages = None, tp_totalToolCalls = 0, tp_thrown = None\<rparr>"

text \<open>The tool calls among the events of a provider stream, in the order of the stream.\<close>

fun emittedCalls :: "LLMEvent list \<Rightarrow> ToolCall list" where
  "emittedCalls [] = []"
| "emittedCalls (ToolcallEnd cid cname cargs # rest) =
     \<lparr>tc_id = cid, tc_name = cname, tc_input = cargs\<rparr> # emittedCalls rest"
| "emittedCalls (ev # rest) = emittedCalls rest"

section \<open>The tool result guard (session-tool-result-guard.ts)\<close>

text \<open>
  A call the guard tracks: the id of a \<open>tool_use\<close> block and its name. A block whose id is
  missing or empty is not tracked.
\<close>

type_synonym TrackedCall = "string \<times> string option"

definition extractToolUsesFromAssistant :: "Message \<Rightarrow> TrackedCall list" where
  "extractToolUsesFromAssistant msg =
     (if role msg \<noteq> Assistant then []
      else case content msg of
             Str s \<Rightarrow> []
           | Blocks blocks \<Rightarrow>
               List.map_filter
                 (\<lambda>block. case block of
                            ToolUse bid bname binput \<Rightarrow> if truthy bid then Some (the bid, bname) else None
                          | _ \<Rightarrow> None)
                 blocks)"

definition extractToolResultIds :: "Message \<Rightarrow> string list" where
  "extractToolResultIds msg =
     (if role msg \<noteq> User then []
      else case content msg of
             Str s \<Rightarrow> []
           | Blocks blocks \<Rightarrow>
               List.map_filter
                 (\<lambda>block. case block of
                            ToolResult rid rname rcontent \<Rightarrow> if truthy rid then rid else None
                          | _ \<Rightarrow> None)
                 blocks)"

definition makeMissingToolResult :: "string \<Rightarrow> string option \<Rightarrow> ContentBlock" where
  "makeMissingToolResult toolCallId toolName =
     ToolResult (Some toolCallId) toolName
       (Some (''[gen-agent] missing tool result in session history; ''
              @ ''inserted synthetic error result for transcript repair.''))"

text \<open>
  A JavaScript \<open>Map\<close> from ids to names, in insertion order: \<open>set\<close> keeps the place of a key
  that is there and puts a new key last; \<open>delete\<close> removes the key.
\<close>

fun mapSet :: "string \<Rightarrow> string option \<Rightarrow> TrackedCall list \<Rightarrow> TrackedCall list" where
  "mapSet k v [] = [(k, v)]"
| "mapSet k v (entry # rest) = (if fst entry = k then (k, v) # rest else entry # mapSet k v rest)"

definition mapDelete :: "string \<Rightarrow> TrackedCall list \<Rightarrow> TrackedCall list" where
  "mapDelete k entries = filter (\<lambda>entry. fst entry \<noteq> k) entries"

text \<open>
  The session manager with the guard installed: the log of every session and the pending
  map of every session. A session with no pending map and a session with an empty one
  behave alike, and both are the empty list here.

  Modelled from the spec: \<open>SessionManager.append\<close> (session.ts is not among the sources)
  puts the message at the end of the log of the session and does not fail.
\<close>

record GuardState =
  transcripts :: "string \<Rightarrow> Message list"
  pendingBySession :: "string \<Rightarrow> TrackedCall list"

definition originalAppend :: "string \<Rightarrow> Message \<Rightarrow> GuardState \<Rightarrow> GuardState" where
  "originalAppend k msg G = G\<lparr>transcripts := (transcripts G)(k := transcripts G k @ [msg])\<rparr>"

definition flushPendingToolResults :: "string \<Rightarrow> nat \<Rightarrow> GuardState \<Rightarrow> GuardState" where
  "flushPendingToolResults k now G =
     (let pending = pendingBySession G k
      in if length pending = 0 then G
         else
           (let results = map (\<lambda>(pid, pname). makeMissingToolResult pid pname) pending
            in originalAppend k \<lparr>role = User, content = Blocks results, timestamp = now\<rparr>
                 (G\<lparr>pendingBySession := (pendingBySession G)(k := [])\<rparr>)))"

text \<open>The patched \<open>append\<close>; \<open>now\<close> is what \<open>Date.now()\<close> gives if it flushes.\<close>

definition guardedAppend :: "string \<Rightarrow> Message \<Rightarrow> nat \<Rightarrow> GuardState \<Rightarrow> GuardState" where
  "guardedAppend k msg now G =
     (let resultIds = extractToolResultIds msg
      in if length resultIds > 0
         then originalAppend k msg
                (G\<lparr>pendingBySession :=
                     (pendingBySession G)(k := foldl (\<lambda>pending rid. mapDelete rid pending)
                                                  (pendingBySession G k) resultIds)\<rparr>)
         else
           (let calls = extractToolUsesFromAssistant msg;
                G1 = (if length (pendingBySession G k) > 0 \<and> length calls = 0
                      then flushPendingToolResults k now G else G);
                G2 = (if length (pendingBySession G1 k) > 0 \<and> length calls > 0
                      then flushPendingToolResults k now G1 else G1);
                G3 = originalAppend k msg G2
            in G3\<lparr>pendingBySession :=
                    (pendingBySession G3)(k := foldl (\<lambda>pending call. mapSet (fst call) (snd call) pending)
                                                 (pendingBySession G3 k) calls)\<rparr>))"

section \<open>A run (agent.ts)\<close>

text \<open>
  \<open>Agent.run\<close>, as far as the session log goes. What happens before the loop is given by
  the script \<open>RunScript\<close>: whether the context window guard refuses the run (nothing is
  appended then), the history \<open>load\<close> gives, the user message after the skill rewrite, and
  what the steps between the append of the user message and the loop (the compaction, the
  system prompt) give: an error, or the summary message of the compaction if any. The
  loop appends through the patched \<open>append\<close>. Whatever happens, the \<open>finally\<close> block flushes
  the pending results of the session, at the time \<open>rs_flushTime\<close>.
\<close>

record RunScript =
  rs_blocked :: "string option"
  rs_history :: "Message list"
  rs_userMessage :: string
  rs_startTime :: nat
  rs_beforeLoop :: "string + Message option"
  rs_flushTime :: nat

definition runBody ::
  "Estimator \<Rightarrow> GuardState AgentLoopParams \<Rightarrow> Env \<Rightarrow> RunScript \<Rightarrow> GuardState
     \<Rightarrow> string option \<times> GuardState" where
  "runBody E p env rs G =
     (case rs_blocked rs of
        Some thrown \<Rightarrow> (Some thrown, G)
      | None \<Rightarrow>
          (let userMsg = \<lparr>role = User, content = Str (rs_userMessage rs), timestamp = rs_startTime rs\<rparr>;
               G1 = guardedAppend (sessionKey p) userMsg (rs_startTime rs) G;
               currentMessages = rs_history rs @ [userMsg]
           in case rs_beforeLoop rs of
                Inl thrown \<Rightarrow> (Some thrown, G1)
              | Inr compactionSummary \<Rightarrow>
                  (case runAgentLoop E (p\<lparr>appendMessage := guardedAppend\<rparr>) env G1 currentMessages
                          compactionSummary of
                     (Some loopError, s) \<Rightarrow>
                       (if loopError \<noteq> [] then (Some loopError, ls_store s) else (None, ls_store s))
                   | (None, s) \<Rightarrow> (None, ls_store s))))"

definition agentRun ::
  "Estimator \<Rightarrow> GuardState AgentLoopParams \<Rightarrow> Env \<Rightarrow> RunScript \<Rightarrow> GuardState
     \<Rightarrow> string option \<times> GuardState" where
  "agentRun E p env rs G =
     (case runBody E p env rs G of
        (outcome, G') \<Rightarrow> (outcome, flushPendingToolResults (sessionKey p) (rs_flushTime rs) G'))"

subsection \<open>Reading the log\<close>

text \<open>
  What the statements about the guard speak of, read from the blocks of the log and not
  through the functions of the guard. The ids of the tool calls of a message are the ids of
  the \<open>tool_use\<close> blocks of an assistant message; the ids it answers are the \<open>tool_use_id\<close>s
  of the \<open>tool_result\<close> blocks of a user message. A block with no id, or with the empty
  string for an id, has none.
\<close>

fun toolUseId :: "ContentBlock \<Rightarrow> string list" where
  "toolUseId (ToolUse (Some bid) bname binput) = (if bid = [] then [] else [bid])"
| "toolUseId block = []"

fun toolResultId :: "ContentBlock \<Rightarrow> string list" where
  "toolResultId (ToolResult (Some rid) rname rcontent) = (if rid = [] then [] else [rid])"
| "toolResultId block = []"

definition blocksOf :: "Message \<Rightarrow> ContentBlock list" where
  "blocksOf msg = (case content msg of Str s \<Rightarrow> [] | Blocks blocks \<Rightarrow> blocks)"

definition toolUseIds :: "Message \<Rightarrow> string list" where
  "toolUseIds msg = (if role msg = Assistant then concat (map toolUseId (blocksOf msg)) else [])"

definition toolResultIds :: "Message \<Rightarrow> string list" where
  "toolResultIds msg = (if role msg = User then concat (map toolResultId (blocksOf msg)) else [])"

text \<open>
  In the log \<open>T\<close>, the call \<open>uid\<close> of the message at \<open>i\<close> is answered when a later message
  has a result for it. The log is paired when every call of every message is answered; the
  unanswered ids are the ids of the calls that are not.
\<close>

definition answeredLater :: "Message list \<Rightarrow> nat \<Rightarrow> string \<Rightarrow> bool" where
  "answeredLater T i uid = (\<exists>j \<in> {i<..<length T}. uid \<in> set (toolResultIds (T ! j)))"

definition toolCallsPaired :: "Message list \<Rightarrow> bool" where
  "toolCallsPaired T =
     (\<forall>i \<in> {..<length T}. \<forall>uid \<in> set (toolUseIds (T ! i)). answeredLater T i uid)"

definition unansweredIds :: "Message list \<Rightarrow> string set" where
  "unansweredIds T =
     (\<Union>i \<in> {..<length T}. {uid \<in> set (toolUseIds (T ! i)). \<not> answeredLater T i uid})"

text \<open>
  What the guard keeps true of a session: the pending ids are the unanswered ids of the
  log, each of them once.
\<close>

definition guardInv :: "string \<Rightarrow> GuardState \<Rightarrow> bool" where
  "guardInv k G =
     (fst ` set (pendingBySession G k) = unansweredIds (transcripts G k)
      \<and> distinct (map fst (pendingBySession G k)))"

text \<open>The message a flush appends for the pending calls \<open>pending\<close> at the time \<open>now\<close>.\<close>

definition syntheticMessage :: "TrackedCall list \<Rightarrow> nat \<Rightarrow> Message" where
  "syntheticMessage pending now =
     \<lparr>role = User,
      content = Blocks (map (\<lambda>(pid, pname). makeMissingToolResult pid pname) pending),
      timestamp = now\<rparr>"

section \<open>Inputs of the examples\<close>

definition ex_toolResultMessage :: Message where
  "ex_toolResultMessage =
     \<lparr>role = User,
      content = Blocks [ToolResult (Some ''t1'') (Some ''exec'') (Some ''0123456789abcde'')],
      timestamp = 1\<rparr>"

text \<open>Settings with \<open>softTrim = {maxChars: 10, headChars: h, tailChars: h}\<close> and \<open>softTrimRatio = 0\<close>.\<close>

definition ex_rawSettings :: "rat \<Rightarrow> RawContextPruningSettings" where
  "ex_rawSettings h =
     \<lparr>raw_maxHistoryShare = None, raw_keepLastAssistants = None, raw_softTrimRatio = Some 0,
      raw_hardClearRatio = None, raw_minPrunableToolChars = None,
      raw_softTrim = Some \<lparr>raw_maxChars = Some 10, raw_headChars = Some h, raw_tailChars = Some h\<rparr>,
      raw_hardClear = None, raw_tools = None\<rparr>"

text \<open>
  A history of four messages of ten characters each, at the addresses 0 to 3, and settings
  that protect the last assistant message.
\<close>

definition ex_history :: "MessageObj list" where
  "ex_history =
     [(0, \<lparr>role = User, content = Str ''0123456789'', timestamp = 1\<rparr>),
      (1, \<lparr>role = Assistant, content = Str ''0123456789'', timestamp = 2\<rparr>),
      (2, \<lparr>role = User, content = Str ''0123456789'', timestamp = 3\<rparr>),
      (3, \<lparr>role = Assistant, content = Str ''0123456789'', timestamp = 4\<rparr>)]"

definition ex_rawKeepOne :: RawContextPruningSettings where
  "ex_rawKeepOne =
     \<lparr>raw_maxHistoryShare = None, raw_keepLastAssistants = Some 1, raw_softTrimRatio = None,
      raw_hardClearRatio = None, raw_minPrunableToolChars = None,
      raw_softTrim = None, raw_hardClear = None, raw_tools = None\<rparr>"

text \<open>
  A summarizer whose first call fails and whose later calls answer \<open>SUMMARY\<close>, and two user
  messages: one of 180 characters (45 tokens) and one of four characters.
\<close>

definition ex_summarize :: SummarizeFn where
  "ex_summarize n p = (if n = 0 then Inl ''request too large'' else Inr ''SUMMARY'')"

definition ex_bigMessage :: Message where
  "ex_bigMessage = \<lparr>role = User, content = Str (replicate 180 CHR ''x''), timestamp = 1\<rparr>"

definition ex_smallMessage :: Message where
  "ex_smallMessage = \<lparr>role = User, content = Str ''okay'', timestamp = 2\<rparr>"

definition ex_summaryParams :: SummaryParams where
  "ex_summaryParams =
     \<lparr>s_messages = [ex_bigMessage, ex_smallMessage], s_maxTokens = 900, s_maxChunkTokens = 1000,
      s_contextWindow = 100, s_customInstructions = None, s_previousSummary = None\<rparr>"

text \<open>
  A turn with four tool calls: a tool that answers, a tool that throws, a name with no tool,
  and the first tool again. The tool phase starts at the counter 10, and the steering queue
  holds one message when it is polled after the third call (at 15).
\<close>

definition ex_tools :: "Tool list" where
  "ex_tools =
     [\<lparr>tool_name = ''read'', tool_description = ''reads'', tool_execute = (\<lambda>t args. Inr ''contents'')\<rparr>,
      \<lparr>tool_name = ''exec'', tool_description = ''runs'', tool_execute = (\<lambda>t args. Inl (ThrownWithMessage ''boom''))\<rparr>]"

definition ex_calls :: "ToolCall list" where
  "ex_calls =
     [\<lparr>tc_id = ''c1'', tc_name = ''read'', tc_input = []\<rparr>,
      \<lparr>tc_id = ''c2'', tc_name = ''exec'', tc_input = []\<rparr>,
      \<lparr>tc_id = ''c3'', tc_name = ''nosuch'', tc_input = []\<rparr>,
      \<lparr>tc_id = ''c4'', tc_name = ''read'', tc_input = []\<rparr>]"

definition ex_steer :: Message where
  "ex_steer = \<lparr>role = User, content = Str ''stop'', timestamp = 7\<rparr>"

definition ex_toolEnv :: Env where
  "ex_toolEnv =
     \<lparr>env_stream = (\<lambda>t sp ms. \<lparr>llm_events = [], llm_error = None\<rparr>),
      env_steering = (\<lambda>t. if t = 15 then [ex_steer] else []),
      env_followUp = None,
      env_aborted = (\<lambda>t. False),
      env_now = (\<lambda>t. t),
      env_random = (\<lambda>t. 0),
      env_prepareCompaction = (\<lambda>t ms. Inr (None, None))\<rparr>"

definition ex_loopParams :: "Message list AgentLoopParams" where
  "ex_loopParams =
     \<lparr>runId = ''run'', sessionKey = ''main'', systemPrompt = ''be brief'', toolsForRun = ex_tools,
      maxTurns = 3, contextTokens = 1000,
      appendMessage = (\<lambda>k msg now transcript. transcript @ [msg])\<rparr>"

definition ex_toolBuffers :: TurnBuffers where
  "ex_toolBuffers =
     \<lparr>assistantContent = map (\<lambda>c. ToolUse (Some (tc_id c)) (Some (tc_name c)) (tc_input c)) ex_calls,
      toolCalls = ex_calls, turnTextParts = []\<rparr>"

definition ex_turnState :: "Message list LoopState" where
  "ex_turnState =
     \<lparr>ls_tick = 10, ls_events = [], ls_store = [], ls_currentMessages = [],
      ls_compactionSummary = None, ls_turns = 1, ls_totalToolCalls = 0, ls_finalText = [],
      ls_overflowCompactionAttempted = False, ls_pendingMessages = [],
      ls_hasMoreToolCalls = True\<rparr>"

text \<open>
  A run whose provider answers with one call of the tool \<open>fetch\<close>, and a tool \<open>fetch\<close>
  whose \<open>execute\<close> rejects with \<open>undefined\<close> (\<open>Promise.reject()\<close>).
\<close>

definition ex_throwTools :: "Tool list" where
  "ex_throwTools =
     [\<lparr>tool_name = ''fetch'', tool_description = ''fetches'', tool_execute = (\<lambda>t args. Inl ThrownUndefined)\<rparr>]"

definition ex_throwEnv :: Env where
  "ex_throwEnv =
     \<lparr>env_stream = (\<lambda>t sp ms. \<lparr>llm_events = [ToolcallEnd ''c1'' ''fetch'' []], llm_error = None\<rparr>),
      env_steering = (\<lambda>t. []),
      env_followUp = None,
      env_aborted = (\<lambda>t. False),
      env_now = (\<lambda>t. t),
      env_random = (\<lambda>t. 0),
      env_prepareCompaction = (\<lambda>t ms. Inr (None, None))\<rparr>"

definition ex_throwAssistant :: Message where
  "ex_throwAssistant =
     \<lparr>role = Assistant, content = Blocks [ToolUse (Some ''c1'') (Some ''fetch'') []], timestamp = 5\<rparr>"

definition ex_throwParams :: "Message list AgentLoopParams" where
  "ex_throwParams =
     \<lparr>runId = ''run'', sessionKey = ''main'', systemPrompt = ''be brief'', toolsForRun = ex_throwTools,
      maxTurns = 3, contextTokens = 1000,
      appendMessage = (\<lambda>k msg now transcript. transcript @ [msg])\<rparr>"

text \<open>
  A run whose first provider call (at the counter 2) fails with a context overflow and
  whose later calls answer \<open>done\<close>. \<open>prepareCompaction\<close> gives a summary when \<open>withSummary\<close>
  holds and nothing otherwise (the history was short enough for it).
\<close>

definition ex_summaryMessage :: Message where
  "ex_summaryMessage = \<lparr>role = User, content = Str ''Summary: earlier talk'', timestamp = 5\<rparr>"

definition ex_question :: Message where
  "ex_question = \<lparr>role = User, content = Str ''hello'', timestamp = 0\<rparr>"

definition ex_overflowEnv :: "bool \<Rightarrow> Env" where
  "ex_overflowEnv withSummary =
     \<lparr>env_stream = (\<lambda>t sp ms. if t = 2 then \<lparr>llm_events = [], llm_error = Some ''context length exceeded''\<rparr>
                               else \<lparr>llm_events = [TextEnd ''done''], llm_error = None\<rparr>),
      env_steering = (\<lambda>t. []),
      env_followUp = None,
      env_aborted = (\<lambda>t. False),
      env_now = (\<lambda>t. t),
      env_random = (\<lambda>t. 0),
      env_prepareCompaction =
        (\<lambda>t ms. if withSummary then Inr (Some ''earlier talk'', Some ex_summaryMessage)
                 else Inr (None, None))\<rparr>"

text \<open>
  The states of that run with a summary: at the head of the loop, after the head of the
  first turn, and after the compaction.
\<close>

definition ex_overflowStart :: "Message list LoopState" where
  "ex_overflowStart = initialLoopState (ex_overflowEnv True) [] [ex_question] None"

definition ex_overflowTurn :: "Message list LoopState" where
  "ex_overflowTurn = beginTurn ex_loopParams (ex_overflowEnv True) (ex_overflowStart\<lparr>ls_tick := 2\<rparr>)"

definition ex_compacted :: "Message list LoopState" where
  "ex_compacted =
     ex_overflowTurn\<lparr>ls_overflowCompactionAttempted := True,
                     ls_events := [TurnStart 1, ContextOverflowCompact ''context length exceeded''],
                     ls_tick := 6,
                     ls_compactionSummary := Some ex_summaryMessage, ls_turns := 0\<rparr>"

text \<open>
  A run on a new session, through the guard, with that provider and that tool: the user
  message is appended at the time 0, the loop is reached, and the \<open>finally\<close> block flushes
  at the time 9.
\<close>

definition ex_guardState :: GuardState where
  "ex_guardState = \<lparr>transcripts = (\<lambda>k. []), pendingBySession = (\<lambda>k. [])\<rparr>"

definition ex_guardParams :: "GuardState AgentLoopParams" where
  "ex_guardParams =
     \<lparr>runId = ''run'', sessionKey = ''main'', systemPrompt = ''be brief'', toolsForRun = ex_throwTools,
      maxTurns = 3, contextTokens = 1000, appendMessage = guardedAppend\<rparr>"

definition ex_runScript :: RunScript where
  "ex_runScript =
     \<lparr>rs_blocked = None, rs_history = [], rs_userMessage = ''hello'', rs_startTime = 0,
      rs_beforeLoop = Inr None, rs_flushTime = 9\<rparr>"

text \<open>
  The tool result of \<open>ex_toolResultMessage\<close> trimmed once with \<open>headChars = tailChars = 2\<close>,
  and trimmed again.
\<close>

definition ex_onceText :: string where
  "ex_onceText = ''01'' @ [CHR 0x0A] @ ''...'' @ [CHR 0x0A] @ ''de'' @ [CHR 0x0A, CHR 0x0A]
       @ ''[Tool result trimmed: kept first 2 chars and last 2 chars of 15 chars.]''"

definition ex_twiceText :: string where
  "ex_twiceText = ''01'' @ [CHR 0x0A] @ ''...'' @ [CHR 0x0A] @ ''.]'' @ [CHR 0x0A, CHR 0x0A]
       @ ''[Tool result trimmed: kept first 2 chars and last 2 chars of 82 chars.]''"

definition ex_trimmedOnce :: Message where
  "ex_trimmedOnce =
     \<lparr>role = User, content = Blocks [ToolResult (Some ''t1'') (Some ''exec'') (Some ex_onceText)],
      timestamp = 1\<rparr>"

definition ex_trimmedTwice :: Message where
  "ex_trimmedTwice =
     \<lparr>role = User, content = Blocks [ToolResult (Some ''t1'') (Some ''exec'') (Some ex_twiceText)],
      timestamp = 1\<rparr>"

chapter \<open>Properties\<close>

section \<open>Tool policy\<close>

lemma regex_test_spec_glob:
  "\<forall>c\<in>set s. \<not> is_line_terminator c \<Longrightarrow> regex_test p s = spec_glob p s"
  by (induction p s rule: regex_test.induct) auto

lemma spec_glob_literal: "CHR ''*'' \<notin> set p \<Longrightarrow> spec_glob p s = (s = p)"
  by (induction p s rule: spec_glob.induct) auto

lemma spec_glob_star: "spec_glob ''*'' s"
  by (induction s) auto

lemma matchesAny_compilePattern:
  assumes "\<forall>c\<in>set n. \<not> is_line_terminator c"
  shows "matchesAny n [compilePattern p] = spec_glob (normalizeToolName p) n"
proof -
  let ?q = "normalizeToolName p"
  consider "?q = []" | "?q = ''*''" | "?q \<noteq> []" "?q \<noteq> ''*''" "CHR ''*'' \<notin> set ?q"
    | "?q \<noteq> []" "?q \<noteq> ''*''" "CHR ''*'' \<in> set ?q" by blast
  then show ?thesis
  proof cases
    case 1 then show ?thesis by (auto simp: compilePattern_def)
  next
    case 2 then show ?thesis using spec_glob_star by (simp add: compilePattern_def)
  next
    case 3 then show ?thesis by (auto simp: compilePattern_def Let_def spec_glob_literal)
  next
    case 4 then show ?thesis using assms by (simp add: compilePattern_def Let_def regex_test_spec_glob)
  qed
qed

lemma matchesAny_Cons: "matchesAny n (c # cs) = (matchesAny n [c] \<or> matchesAny n cs)"
  by (cases c) auto

lemma matchesAny_compilePatterns:
  assumes "\<forall>c\<in>set n. \<not> is_line_terminator c"
  shows "matchesAny n (compilePatterns ps) = (\<exists>q\<in>set ps. spec_glob (normalizeToolName q) n)"
proof (induction ps)
  case Nil
  then show ?case by (simp add: compilePatterns_def)
next
  case (Cons a ps)
  have "matchesAny n (compilePatterns (a # ps))
        = (matchesAny n [compilePattern a] \<or> matchesAny n (compilePatterns ps))"
    unfolding compilePatterns_def list.map by (rule matchesAny_Cons)
  then show ?case using Cons matchesAny_compilePattern[OF assms] by simp
qed

lemma exec_no_lt: "\<forall>c\<in>set ''exec''. \<not> is_line_terminator c"
  by (simp add: is_line_terminator_def)

text \<open>
  Claim C9, as the code has it. For a tool name whose normalised form (trimmed, lower
  case, aliases \<open>bash\<close> and \<open>apply-patch\<close> resolved) holds no line terminator:
  with the single allow pattern \<open>p\<close> and nothing denied, the tool is allowed exactly when
  its normalised name matches the normalised pattern under the glob, or when it is
  \<open>apply_patch\<close> and \<open>exec\<close> matches the pattern; a name that matches a deny pattern is
  rejected whatever the allow list is; and with an absent or empty allow list the tool is
  allowed exactly when no deny pattern matches.
\<close>

theorem isToolAllowed_glob_policy:
  assumes "\<forall>c\<in>set (normalizeToolName t). \<not> is_line_terminator c"
  shows "(isToolAllowed t (Some \<lparr>allow = Some [p], deny = None\<rparr>)
            \<longleftrightarrow> spec_glob (normalizeToolName p) (normalizeToolName t)
                \<or> (normalizeToolName t = ''apply_patch'' \<and> spec_glob (normalizeToolName p) ''exec''))
       \<and> ((\<exists>q\<in>set d. spec_glob (normalizeToolName q) (normalizeToolName t))
            \<longrightarrow> \<not> isToolAllowed t (Some \<lparr>allow = a, deny = Some d\<rparr>))
       \<and> (a = None \<or> a = Some []
            \<longrightarrow> (isToolAllowed t (Some \<lparr>allow = a, deny = dn\<rparr>)
                  \<longleftrightarrow> \<not> (\<exists>q\<in>set (case dn of None \<Rightarrow> [] | Some d \<Rightarrow> d).
                          spec_glob (normalizeToolName q) (normalizeToolName t))))"
proof (intro conjI impI)
  have one: "compilePatterns [p] \<noteq> []" by (simp add: compilePatterns_def)
  show "isToolAllowed t (Some \<lparr>allow = Some [p], deny = None\<rparr>)
            \<longleftrightarrow> spec_glob (normalizeToolName p) (normalizeToolName t)
                \<or> (normalizeToolName t = ''apply_patch'' \<and> spec_glob (normalizeToolName p) ''exec'')"
    using matchesAny_compilePatterns[OF assms, of "[p]"] matchesAny_compilePatterns[OF exec_no_lt, of "[p]"] one
    by (auto simp: isToolAllowed_def Let_def compilePatterns_def)
next
  assume "\<exists>q\<in>set d. spec_glob (normalizeToolName q) (normalizeToolName t)"
  then have "matchesAny (normalizeToolName t) (compilePatterns d)"
    using matchesAny_compilePatterns[OF assms] by simp
  then show "\<not> isToolAllowed t (Some \<lparr>allow = a, deny = Some d\<rparr>)"
    by (simp add: isToolAllowed_def Let_def)
next
  assume "a = None \<or> a = Some []"
  then have e: "compilePatterns (case a of None \<Rightarrow> [] | Some a \<Rightarrow> a) = []"
    by (auto simp: compilePatterns_def)
  show "isToolAllowed t (Some \<lparr>allow = a, deny = dn\<rparr>)
          \<longleftrightarrow> \<not> (\<exists>q\<in>set (case dn of None \<Rightarrow> [] | Some d \<Rightarrow> d).
                  spec_glob (normalizeToolName q) (normalizeToolName t))"
    using matchesAny_compilePatterns[OF assms] e by (simp add: isToolAllowed_def Let_def)
qed

lemma norm_eval:
  "normalizeToolName '' File_Read '' = ''file_read''"
  "normalizeToolName ''file_*'' = ''file_*''"
  "normalizeToolName ''Bash'' = ''exec''"
  "normalizeToolName ''ex*'' = ''ex*''"
  by code_simp+

theorem isToolAllowed_glob_policy_witness:
  "isToolAllowed '' File_Read '' (Some \<lparr>allow = Some [''file_*''], deny = None\<rparr>)
   \<and> \<not> isToolAllowed ''Bash'' (Some \<lparr>allow = Some [''*''], deny = Some [''ex*'']\<rparr>)
   \<and> isToolAllowed '' File_Read '' (Some \<lparr>allow = Some [], deny = Some [''ex*'']\<rparr>)"
proof -
  have h1: "\<forall>c\<in>set (normalizeToolName '' File_Read ''). \<not> is_line_terminator c"
    by (simp add: norm_eval is_line_terminator_def)
  have h2: "\<forall>c\<in>set (normalizeToolName ''Bash''). \<not> is_line_terminator c"
    by (simp add: norm_eval is_line_terminator_def)
  show ?thesis
    using isToolAllowed_glob_policy[OF h1, of "''file_*''" "[]" "Some []" "Some [''ex*'']"]
          isToolAllowed_glob_policy[OF h2, of "''*''" "[''ex*'']" "Some [''*'']" "None"]
    by (simp add: norm_eval)
qed

text \<open>
  Claim C9 as stated fails: \<open>apply_patch\<close> inherits the permission of \<open>exec\<close>, so it is
  allowed by the allow list \<open>[exec]\<close> although it does not match the pattern \<open>exec\<close>.
\<close>

theorem isToolAllowed_glob_counterexample:
  "isToolAllowed ''apply_patch'' (Some \<lparr>allow = Some [''exec''], deny = None\<rparr>)
   \<and> \<not> spec_glob ''exec'' ''apply_patch''"
  by code_simp

section \<open>Command queue\<close>

lemma drainLane_props:
  "drainLane s = (s', ts) \<Longrightarrow>
     maxConcurrent s' = maxConcurrent s \<and> lane s' = lane s
     \<and> active s' = active s + int (length ts)
     \<and> ts @ queue s' = queue s
     \<and> (active s \<le> maxConcurrent s \<longrightarrow> active s' \<le> maxConcurrent s)"
proof (induction s arbitrary: s' ts rule: drainLane.induct)
  case (1 s)
  show ?case
  proof (cases "active s < maxConcurrent s \<and> queue s \<noteq> []")
    case True
    obtain s1 ts1 where d: "drainLane (s\<lparr>queue := tl (queue s), active := active s + 1\<rparr>) = (s1, ts1)"
      by (cases "drainLane (s\<lparr>queue := tl (queue s), active := active s + 1\<rparr>)")
    from "1.prems" True d have e: "s' = s1" "ts = hd (queue s) # ts1"
      by (simp_all add: drainLane.simps[of s])
    from "1.IH"[OF True d] True e show ?thesis by auto
  next
    case False
    with "1.prems" have "s' = s" "ts = []" by (simp_all add: drainLane.simps[of s])
    then show ?thesis by simp
  qed
qed

lemma lane_reachable_inv: "lane_reachable m name w \<Longrightarrow> lane_inv m w"
proof (induction rule: lane_reachable.induct)
  case lane_init
  obtain s' ts where d: "setLaneConcurrency m (createLane name :: 'a LaneState) = (s', ts)"
    by (cases "setLaneConcurrency m (createLane name :: 'a LaneState)")
  then have "s' = (createLane name)\<lparr>maxConcurrent := max 1 \<lfloor>m\<rfloor>\<rparr>"
    by (simp add: setLaneConcurrency_def createLane_def drainLane.simps)
  with d show ?case by (simp add: lane_inv_def createLane_def)
next
  case (lane_enqueue w task s' ts)
  from \<open>enqueueInLane (state w) task = (s', ts)\<close>
  have "drainLane ((state w)\<lparr>queue := queue (state w) @ [task]\<rparr>) = (s', ts)"
    by (simp add: enqueueInLane_def)
  from drainLane_props[OF this] \<open>lane_inv m w\<close>
  show ?case by (auto simp: lane_inv_def)
next
  case (lane_drain w s' ts)
  from drainLane_props[OF \<open>drainLane (state w) = (s', ts)\<close>] \<open>lane_inv m w\<close>
  show ?case by (auto simp: lane_inv_def)
next
  case (lane_settle w task s' ts)
  have pos: "0 < length (inflight w)"
    using \<open>task \<in> set (inflight w)\<close> by (rule length_pos_if_in_set)
  have "length (remove1 task (inflight w)) = length (inflight w) - 1"
    using \<open>task \<in> set (inflight w)\<close> by (simp add: length_remove1)
  with pos have "int (length (remove1 task (inflight w))) = int (length (inflight w)) - 1"
    by linarith
  moreover from \<open>settleTask (state w) = (s', ts)\<close>
  have "drainLane ((state w)\<lparr>active := active (state w) - 1\<rparr>) = (s', ts)"
    by (simp add: settleTask_def)
  note drainLane_props[OF this]
  ultimately show ?case using \<open>lane_inv m w\<close> by (auto simp: lane_inv_def)
qed

text \<open>
  Claim C7. In every state a lane reaches by enqueueing, draining and settling tasks,
  started with its bound set by \<open>setLaneConcurrency m\<close>: the in-flight counter is at most
  \<open>maxConcurrent\<close>, which is still the bound that was set; the counter is the number of
  tasks started and not yet settled, so at most that many run at once; and the tasks
  started so far, followed by the queue, are the tasks enqueued so far in the order of
  their enqueueing (tasks start in FIFO order).
\<close>

theorem lane_bound_fifo:
  assumes "lane_reachable m name w"
  shows "active (state w) \<le> maxConcurrent (state w)
       \<and> maxConcurrent (state w) = max 1 \<lfloor>m\<rfloor>
       \<and> int (length (inflight w)) \<le> max 1 \<lfloor>m\<rfloor>
       \<and> int (length (inflight w)) = active (state w)
       \<and> started w @ queue (state w) = enqueued w"
  using lane_reachable_inv[OF assms] by (simp add: lane_inv_def)

lemma lane_example_reachable:
  "lane_reachable 2 ''main''
     \<lparr>state = \<lparr>lane = ''main'', active = 2, queue = [], maxConcurrent = 2\<rparr>,
      enqueued = [1::int, 2, 3], started = [1, 2, 3], inflight = [2, 3]\<rparr>"
proof -
  let ?s0 = "\<lparr>lane = ''main'', active = 0, queue = ([]::int list), maxConcurrent = 2\<rparr>"
  let ?s1 = "\<lparr>lane = ''main'', active = 1, queue = ([]::int list), maxConcurrent = 2\<rparr>"
  let ?s2 = "\<lparr>lane = ''main'', active = 2, queue = ([]::int list), maxConcurrent = 2\<rparr>"
  let ?s3 = "\<lparr>lane = ''main'', active = 2, queue = [3::int], maxConcurrent = 2\<rparr>"
  have i: "fst (setLaneConcurrency 2 (createLane ''main'' :: int LaneState)) = ?s0"
    by (simp add: setLaneConcurrency_def createLane_def drainLane.simps)
  have r0: "lane_reachable 2 ''main'' \<lparr>state = ?s0, enqueued = [], started = [], inflight = []\<rparr>"
    using lane_init[of 2 "''main''", where 'a = int] by (simp only: i)
  have e1: "enqueueInLane ?s0 1 = (?s1, [1])"
    by (simp add: enqueueInLane_def drainLane.simps)
  have e2: "enqueueInLane ?s1 2 = (?s2, [2])"
    by (simp add: enqueueInLane_def drainLane.simps)
  have e3: "enqueueInLane ?s2 3 = (?s3, [])"
    by (simp add: enqueueInLane_def drainLane.simps)
  have e4: "settleTask ?s3 = (?s2, [3])"
    by (simp add: settleTask_def drainLane.simps)
  from lane_enqueue[OF r0, of 1] e1
  have r1: "lane_reachable 2 ''main''
     \<lparr>state = ?s1, enqueued = [1::int], started = [1], inflight = [1]\<rparr>"
    by simp
  from lane_enqueue[OF r1, of 2] e2
  have r2: "lane_reachable 2 ''main''
     \<lparr>state = ?s2, enqueued = [1::int, 2], started = [1, 2], inflight = [1, 2]\<rparr>"
    by simp
  from lane_enqueue[OF r2, of 3] e3
  have r3: "lane_reachable 2 ''main''
     \<lparr>state = ?s3, enqueued = [1::int, 2, 3], started = [1, 2], inflight = [1, 2]\<rparr>"
    by simp
  from lane_settle[OF r3, of 1] e4 show ?thesis by simp
qed

theorem lane_bound_fifo_witness:
  "lane_reachable 2 ''main''
     \<lparr>state = \<lparr>lane = ''main'', active = 2, queue = [], maxConcurrent = 2\<rparr>,
      enqueued = [1::int, 2, 3], started = [1, 2, 3], inflight = [2, 3]\<rparr>
   \<and> int (length [2::int, 3]) \<le> max 1 \<lfloor>2::rat\<rfloor>
   \<and> [1::int, 2, 3] @ [] = [1, 2, 3]"
  using lane_bound_fifo[OF lane_example_reachable] lane_example_reachable by simp

section \<open>Context pruning: soft trim\<close>

lemma softTrimToolResultBlock_spec:
  assumes "case b of ToolResult tid nm c \<Rightarrow> prunableBy P tid = prunableBy P nm | _ \<Rightarrow> True"
  shows "softTrimToolResultBlock b st P
         = (if softTrimTarget st P b then (softTrimmed st b, True) else (b, False))"
proof (cases b)
  case (ToolResult tid nm c)
  with assms have a: "prunableBy P tid = prunableBy P nm" by simp
  show ?thesis
  proof (cases c)
    case None
    with ToolResult show ?thesis by (simp add: Let_def isToolResultProtected_def)
  next
    case (Some s)
    with ToolResult a show ?thesis
      by (auto simp: Let_def isToolResultProtected_def prunableBy_def trimmedText_def)
  qed
qed simp_all

lemma softTrimBlocks_spec:
  assumes "list_all (\<lambda>b. case b of ToolResult tid nm c \<Rightarrow> prunableBy P tid = prunableBy P nm
                               | _ \<Rightarrow> True) bs"
  shows "softTrimBlocks st P bs
         = (map (\<lambda>b. if softTrimTarget st P b then softTrimmed st b else b) bs,
            length (filter (softTrimTarget st P) bs))"
  using assms
proof (induction bs)
  case Nil
  then show ?case by simp
next
  case (Cons b bs)
  then have hb: "case b of ToolResult tid nm c \<Rightarrow> prunableBy P tid = prunableBy P nm | _ \<Rightarrow> True"
    and hbs: "softTrimBlocks st P bs
         = (map (\<lambda>b. if softTrimTarget st P b then softTrimmed st b else b) bs,
            length (filter (softTrimTarget st P) bs))"
    by simp_all
  show ?case
    by (simp add: softTrimToolResultBlock_spec[OF hb] hbs)
qed

lemma applySoftTrim_spec:
  assumes "list_all (\<lambda>m. verdictsAgree P (snd m)) msgs"
  shows "map snd (fst (applySoftTrim nxt msgs settings P))
           = map (softTrimmedMessage (softTrim settings) P) (map snd msgs)
       \<and> fst (snd (applySoftTrim nxt msgs settings P))
           = sum_list (map (softTrimTargets (softTrim settings) P) (map snd msgs))
       \<and> length (fst (applySoftTrim nxt msgs settings P)) = length msgs
       \<and> (\<forall>i<length msgs. softTrimTargets (softTrim settings) P (snd (msgs ! i)) = 0
             \<longrightarrow> fst (applySoftTrim nxt msgs settings P) ! i = msgs ! i)"
  using assms
proof (induction msgs arbitrary: nxt)
  case Nil
  then show ?case by simp
next
  case (Cons m msgs)
  then have agree: "verdictsAgree P (snd m)" and rest: "list_all (\<lambda>m. verdictsAgree P (snd m)) msgs"
    by simp_all
  note IH = Cons.IH[OF rest]
  show ?case
  proof (cases "content (snd m)")
    case (Str s)
    obtain out n nxt' where r: "applySoftTrim nxt msgs settings P = (out, n, nxt')"
      by (cases "applySoftTrim nxt msgs settings P") auto
    from IH[of nxt] r Str show ?thesis
      by (auto simp: softTrimmedMessage_def softTrimTargets_def nth_Cons split: nat.splits)
  next
    case (Blocks bs)
    with agree have ab: "list_all (\<lambda>b. case b of ToolResult tid nm c \<Rightarrow> prunableBy P tid = prunableBy P nm
                               | _ \<Rightarrow> True) bs"
      by (simp add: verdictsAgree_def)
    note sb = softTrimBlocks_spec[OF ab, of "softTrim settings"]
    show ?thesis
    proof (cases "length (filter (softTrimTarget (softTrim settings) P) bs) > 0")
      case True
      obtain out n nxt' where r: "applySoftTrim (nxt + 1) msgs settings P = (out, n, nxt')"
        by (cases "applySoftTrim (nxt + 1) msgs settings P") auto
      from IH[of "nxt + 1"] r Blocks True sb show ?thesis
        by (auto simp: softTrimmedMessage_def softTrimTargets_def cloneMessage_def nth_Cons
                 split: nat.splits)
    next
      case False
      obtain out n nxt' where r: "applySoftTrim nxt msgs settings P = (out, n, nxt')"
        by (cases "applySoftTrim nxt msgs settings P") auto
      from False have nomap: "map (\<lambda>b. if softTrimTarget (softTrim settings) P b
                                   then softTrimmed (softTrim settings) b else b) bs = bs"
        by (induction bs) (auto split: if_splits)
      from Blocks have same: "(snd m)\<lparr>content := Blocks bs\<rparr> = snd m" by simp
      from IH[of nxt] r Blocks False sb nomap same show ?thesis
        by (auto simp: softTrimmedMessage_def softTrimTargets_def nth_Cons split: nat.splits)
    qed
  qed
qed

lemma makeToolPrunablePredicate_sem:
  "makeToolPrunablePredicate (Some tm) toolName
     \<longleftrightarrow> \<not> (\<exists>p\<in>set (case tm_deny tm of None \<Rightarrow> [] | Some d \<Rightarrow> d).
               matchGlob (js_toLowerCase (js_trim toolName)) (js_toLowerCase p))
         \<and> ((case tm_allow tm of None \<Rightarrow> [] | Some a \<Rightarrow> a) = []
            \<or> (\<exists>p\<in>set (case tm_allow tm of None \<Rightarrow> [] | Some a \<Rightarrow> a).
                  matchGlob (js_toLowerCase (js_trim toolName)) (js_toLowerCase p)))"
  by (auto simp: makeToolPrunablePredicate_def Let_def list_ex_iff)

text \<open>
  Claim C5, as the code has it. When the estimate of the messages over \<open>charWindow\<close> exceeds
  \<open>softTrimRatio\<close>, and the predicate gives for every tool result the same verdict on its
  \<open>tool_use_id\<close> (which the code tests) as on its tool's name: layer 1 replaces the content
  of every tool result whose tool is prunable and whose string content is longer than
  \<open>maxChars\<close> and longer than \<open>headChars + tailChars\<close> by the head, the line of dots, the tail
  and the note; every other block and every field of a message but its content is as it
  was; a message with no such block is the very object it was; the counter is the number
  of blocks replaced. The predicate rejects a name that a deny pattern matches, and
  accepts any other name when the allow list is empty, else when an allow pattern matches.
\<close>

theorem softTrim_layer1:
  assumes "of_nat (estimateMessagesChars E (map snd msgs)) / of_int (charWindowOf cwt)
             > softTrimRatio settings"
    and "list_all (\<lambda>m. verdictsAgree (makeToolPrunablePredicate (Some (tools settings))) (snd m)) msgs"
  shows "map snd (fst (pruneLayer1 E nxt msgs cwt settings))
           = map (softTrimmedMessage (softTrim settings) (makeToolPrunablePredicate (Some (tools settings))))
               (map snd msgs)
       \<and> fst (snd (pruneLayer1 E nxt msgs cwt settings))
           = sum_list (map (softTrimTargets (softTrim settings)
                              (makeToolPrunablePredicate (Some (tools settings)))) (map snd msgs))
       \<and> (\<forall>i<length msgs.
             softTrimTargets (softTrim settings) (makeToolPrunablePredicate (Some (tools settings)))
               (snd (msgs ! i)) = 0
             \<longrightarrow> fst (pruneLayer1 E nxt msgs cwt settings) ! i = msgs ! i)
       \<and> (\<forall>toolName.
             makeToolPrunablePredicate (Some (tools settings)) toolName
             \<longleftrightarrow> \<not> (\<exists>p\<in>set (case tm_deny (tools settings) of None \<Rightarrow> [] | Some d \<Rightarrow> d).
                       matchGlob (js_toLowerCase (js_trim toolName)) (js_toLowerCase p))
                 \<and> ((case tm_allow (tools settings) of None \<Rightarrow> [] | Some a \<Rightarrow> a) = []
                    \<or> (\<exists>p\<in>set (case tm_allow (tools settings) of None \<Rightarrow> [] | Some a \<Rightarrow> a).
                          matchGlob (js_toLowerCase (js_trim toolName)) (js_toLowerCase p))))"
proof -
  have l1: "pruneLayer1 E nxt msgs cwt settings
              = applySoftTrim nxt msgs settings (makeToolPrunablePredicate (Some (tools settings)))"
    using assms(1) by (simp add: pruneLayer1_def Let_def)
  show ?thesis
    unfolding l1 using applySoftTrim_spec[OF assms(2), of nxt settings] makeToolPrunablePredicate_sem
    by blast
qed

lemma ex_charWindow: "charWindowOf 1000 = 4000"
  by (simp add: charWindowOf_def CHARS_PER_TOKEN_ESTIMATE_def)

lemma ex_chars: "estimateMessagesChars charEstimator [ex_toolResultMessage] = 15"
  by (simp add: charEstimator_def messageChars_def ex_toolResultMessage_def)

lemma ex_settings: "resolvePruningSettings (Some (ex_rawSettings h)) =
   \<lparr>maxHistoryShare = 1 / 2, keepLastAssistants = 3, softTrimRatio = 0, hardClearRatio = 1 / 2,
    minPrunableToolChars = 50000,
    softTrim = \<lparr>maxChars = 10, headChars = nat (max 0 \<lfloor>h\<rfloor>), tailChars = nat (max 0 \<lfloor>h\<rfloor>)\<rparr>,
    hardClear = \<lparr>enabled = True, placeholder = ''[Old tool result content cleared]''\<rparr>,
    tools = \<lparr>tm_allow = None, tm_deny = None\<rparr>\<rparr>"
  by (simp add: resolvePruningSettings_def ex_rawSettings_def DEFAULT_CONTEXT_PRUNING_SETTINGS_def
       clampShare_def clampPositiveInt_def Let_def)

lemma prunable_default: "makeToolPrunablePredicate (Some \<lparr>tm_allow = None, tm_deny = None\<rparr>) n"
  by (simp add: makeToolPrunablePredicate_def)

lemma decimal_eval: "decimal 2 = ''2''" "decimal 15 = ''15''" "decimal 82 = ''82''"
  by (simp_all add: decimal.simps digit_char_def)

lemma ex_length: "length ''0123456789abcde'' = 15"
  by simp

theorem softTrim_layer1_witness:
  "of_nat (estimateMessagesChars charEstimator (map snd [(0::nat, ex_toolResultMessage)])) / of_int (charWindowOf 1000)
     > softTrimRatio (resolvePruningSettings (Some (ex_rawSettings 2)))
   \<and> map snd (fst (pruneLayer1 charEstimator 1 [(0::nat, ex_toolResultMessage)] 1000
                     (resolvePruningSettings (Some (ex_rawSettings 2)))))
     = [\<lparr>role = User,
         content = Blocks [ToolResult (Some ''t1'') (Some ''exec'')
           (Some (''01'' @ [CHR 0x0A] @ ''...'' @ [CHR 0x0A] @ ''de'' @ [CHR 0x0A, CHR 0x0A]
                  @ ''[Tool result trimmed: kept first 2 chars and last 2 chars of 15 chars.]''))],
         timestamp = 1\<rparr>]
   \<and> fst (snd (pruneLayer1 charEstimator 1 [(0::nat, ex_toolResultMessage)] 1000
                  (resolvePruningSettings (Some (ex_rawSettings 2))))) = 1"
proof -
  let ?S = "resolvePruningSettings (Some (ex_rawSettings 2))"
  have h1: "of_nat (estimateMessagesChars charEstimator (map snd [(0::nat, ex_toolResultMessage)]))
              / of_int (charWindowOf 1000) > softTrimRatio ?S"
    by (simp add: ex_charWindow ex_chars ex_settings)
  have h2: "list_all (\<lambda>m. verdictsAgree (makeToolPrunablePredicate (Some (tools ?S))) (snd m))
              [(0::nat, ex_toolResultMessage)]"
    by (simp add: ex_settings prunable_default verdictsAgree_def ex_toolResultMessage_def prunableBy_def)
  have e1: "map (softTrimmedMessage (softTrim ?S) (makeToolPrunablePredicate (Some (tools ?S))))
              (map snd [(0::nat, ex_toolResultMessage)])
     = [\<lparr>role = User,
         content = Blocks [ToolResult (Some ''t1'') (Some ''exec'')
           (Some (''01'' @ [CHR 0x0A] @ ''...'' @ [CHR 0x0A] @ ''de'' @ [CHR 0x0A, CHR 0x0A]
                  @ ''[Tool result trimmed: kept first 2 chars and last 2 chars of 15 chars.]''))],
         timestamp = 1\<rparr>]"
    by (simp add: ex_settings prunable_default decimal_eval ex_length softTrimmedMessage_def
          ex_toolResultMessage_def prunableBy_def del: list.size)
  have e2: "sum_list (map (softTrimTargets (softTrim ?S) (makeToolPrunablePredicate (Some (tools ?S))))
              (map snd [(0::nat, ex_toolResultMessage)])) = 1"
    by (simp add: ex_settings prunable_default softTrimTargets_def ex_toolResultMessage_def prunableBy_def)
  note T = softTrim_layer1[OF h1 h2, of 1]
  have a: "map snd (fst (pruneLayer1 charEstimator 1 [(0::nat, ex_toolResultMessage)] 1000 ?S))
       = map (softTrimmedMessage (softTrim ?S) (makeToolPrunablePredicate (Some (tools ?S))))
              (map snd [(0::nat, ex_toolResultMessage)])"
    by (rule conjunct1[OF T])
  have b: "fst (snd (pruneLayer1 charEstimator 1 [(0::nat, ex_toolResultMessage)] 1000 ?S))
       = sum_list (map (softTrimTargets (softTrim ?S) (makeToolPrunablePredicate (Some (tools ?S))))
              (map snd [(0::nat, ex_toolResultMessage)]))"
    by (rule conjunct1[OF conjunct2[OF T]])
  from h1 a b e1 e2 show ?thesis by (simp only:) 
qed

text \<open>
  Claim C5 as stated fails: with \<open>maxChars = 10\<close> and \<open>headChars = tailChars = 10\<close> a prunable
  tool result of 15 characters is longer than \<open>maxChars\<close>, the ratio exceeds \<open>softTrimRatio\<close>,
  and layer 1 leaves the result as it is, since head and tail cover it.
\<close>

theorem softTrim_counterexample:
  "of_nat (estimateMessagesChars charEstimator (map snd [(0::nat, ex_toolResultMessage)])) / of_int (charWindowOf 1000)
     > softTrimRatio (resolvePruningSettings (Some (ex_rawSettings 10)))
   \<and> makeToolPrunablePredicate (Some (tools (resolvePruningSettings (Some (ex_rawSettings 10))))) ''exec''
   \<and> makeToolPrunablePredicate (Some (tools (resolvePruningSettings (Some (ex_rawSettings 10))))) ''t1''
   \<and> length ''0123456789abcde'' > maxChars (softTrim (resolvePruningSettings (Some (ex_rawSettings 10))))
   \<and> pruneLayer1 charEstimator 1 [(0::nat, ex_toolResultMessage)] 1000
        (resolvePruningSettings (Some (ex_rawSettings 10)))
     = ([(0::nat, ex_toolResultMessage)], 0, 1)"
proof -
  have "pruneLayer1 charEstimator 1 [(0::nat, ex_toolResultMessage)] 1000
        (resolvePruningSettings (Some (ex_rawSettings 10)))
     = ([(0::nat, ex_toolResultMessage)], 0, 1)"
    by (simp add: pruneLayer1_def ex_charWindow ex_chars ex_settings prunable_default
          ex_toolResultMessage_def isToolResultProtected_def truthy_def)
  then show ?thesis
    by (simp add: ex_charWindow ex_chars ex_settings prunable_default)
qed

section \<open>The budget of the pruner\<close>

lemma pow2_values:
  "pow2 (- 53) = 1 / 9007199254740992" "pow2 (- 48) = 1 / 281474976710656"
  "pow2 (- 47) = 1 / 140737488355328" "pow2 (- 42) = 1 / 4398046511104"
  by (simp_all add: pow2_def)

lemma binaryExponent_values:
  "binaryExponent (1 / 2) = - 1" "binaryExponent 20 = 4" "binaryExponent 2000 = 10"
  by (simp_all add: binaryExponent_def bitLength.simps)

lemma toDouble_values:
  "toDouble (1 / 2) = 1 / 2" "toDouble 20 = 20" "toDouble 2000 = 2000"
  by (simp_all add: toDouble_def binaryExponent_values pow2_values Let_def)

text \<open>
  The share 0.57 is the binary64 value \<open>5134103575202365 / 2\<^sup>5\<^sup>3\<close>, a little below 57/100, and
  100 times it rounds to a value below 57: with a window of 25 tokens the budget is 56
  characters.
\<close>

lemma toDouble_57: "toDouble (57 / 100) = 5134103575202365 / 9007199254740992"
proof -
  have c: "\<lceil>(100::rat) / 57\<rceil> = 2" by (rule ceiling_unique) simp_all
  have e: "binaryExponent (57 / 100) = - 1"
    by (simp add: binaryExponent_def c bitLength.simps)
  have f: "\<lfloor>(128352589380059136::rat) / 25\<rfloor> = 5134103575202365"
    by (rule floor_unique) simp_all
  show ?thesis
    by (simp add: toDouble_def e pow2_values Let_def f)
qed

lemma toDouble_product: "\<lfloor>toDouble (100 * toDouble (57 / 100))\<rfloor> = 56"
proof -
  have fl: "\<lfloor>(128352589380059125::rat) / 2251799813685248\<rfloor> = 56"
    by (rule floor_unique) simp_all
  have e: "binaryExponent (128352589380059125 / 2251799813685248) = 5"
    by (simp add: binaryExponent_def fl bitLength.simps)
  have f: "\<lfloor>(128352589380059125::rat) / 16\<rfloor> = 8022036836253695"
    by (rule floor_unique) simp_all
  have g: "\<lfloor>(8022036836253695::rat) / 140737488355328\<rfloor> = 56"
    by (rule floor_unique) simp_all
  show ?thesis
    unfolding toDouble_57
    by (simp add: toDouble_def e pow2_values Let_def f g)
qed

lemma budgetCharsOf_rounded:
  assumes "maxHistoryShare settings = 57 / 100"
  shows "budgetCharsOf settings 25 = 56"
proof -
  have "charWindowOf 25 = 100" by (simp add: charWindowOf_def CHARS_PER_TOKEN_ESTIMATE_def)
  then show ?thesis unfolding budgetCharsOf_def assms by (simp add: toDouble_product)
qed

section \<open>Context pruning: message drop\<close>

lemma charsOf_simps [simp]:
  "charsOf E [] = 0" "charsOf E (m # ms) = estimateMessageChars E (snd m) + charsOf E ms"
  "charsOf E (xs @ ys) = charsOf E xs + charsOf E ys"
  by (simp_all add: charsOf_def)

lemma take_range_Suc:
  assumes "j \<le> i" "i < length xs"
  shows "take (Suc i - j) (drop j xs) = take (i - j) (drop j xs) @ [xs ! i]"
proof -
  have "i - j < length (drop j xs)" using assms by simp
  then have "take (Suc (i - j)) (drop j xs) = take (i - j) (drop j xs) @ [drop j xs ! (i - j)]"
    by (rule take_Suc_conv_app_nth)
  moreover have "drop j xs ! (i - j) = xs ! i" using assms by simp
  moreover have "Suc i - j = Suc (i - j)" using assms by simp
  ultimately show ?thesis by simp
qed

lemma fillLoop_char:
  "i \<le> length current \<Longrightarrow>
   \<exists>j\<le>i. fillLoop E current i (drop i current) remaining = drop j current
        \<and> charsOf E (take (i - j) (drop j current)) \<le> remaining
        \<and> (j = 0 \<or> estimateMessageChars E (snd (current ! (j - 1)))
                      + charsOf E (take (i - j) (drop j current)) > remaining)"
proof (induction i arbitrary: remaining)
  case 0
  then show ?case by simp
next
  case (Suc i)
  then have il: "i < length current" by simp
  let ?c = "estimateMessageChars E (snd (current ! i))"
  show ?case
  proof (cases "?c > remaining")
    case True
    then have "fillLoop E current (Suc i) (drop (Suc i) current) remaining = drop (Suc i) current"
      by (simp add: Let_def)
    with True show ?thesis by (intro exI[of _ "Suc i"]) simp
  next
    case False
    have d: "current ! i # drop (Suc i) current = drop i current"
      using il by (simp add: Cons_nth_drop_Suc)
    from False have f: "fillLoop E current (Suc i) (drop (Suc i) current) remaining
                      = fillLoop E current i (drop i current) (remaining - ?c)"
      by (simp add: Let_def d)
    from Suc.IH[of "remaining - ?c"] il obtain j where j: "j \<le> i"
      "fillLoop E current i (drop i current) (remaining - ?c) = drop j current"
      "charsOf E (take (i - j) (drop j current)) \<le> remaining - ?c"
      "j = 0 \<or> estimateMessageChars E (snd (current ! (j - 1)))
                      + charsOf E (take (i - j) (drop j current)) > remaining - ?c"
      by auto
    have t: "take (Suc i - j) (drop j current) = take (i - j) (drop j current) @ [current ! i]"
      using j(1) il by (rule take_range_Suc)
    from j False show ?thesis
      by (intro exI[of _ j]) (auto simp: f t simp del: fillLoop.simps)
  qed
qed

lemma sliceLoop_char:
  "i \<le> length current \<Longrightarrow>
   (length current - i \<ge> 2 \<longrightarrow> charsOf E (drop i current) \<le> budget) \<Longrightarrow>
   \<exists>j\<le>i. sliceLoop E current budget i (rev (drop i current)) (charsOf E (drop i current))
            = rev (drop j current)
        \<and> (length current - j \<ge> 2 \<longrightarrow> charsOf E (drop j current) \<le> budget)
        \<and> (j > 0 \<longrightarrow> charsOf E (drop (j - 1) current) > budget \<and> j < length current)
        \<and> (j = i \<and> i > 0 \<longrightarrow> i < length current)"
proof (induction i)
  case 0
  then show ?case by simp
next
  case (Suc i)
  then have il: "i < length current" by simp
  let ?c = "estimateMessageChars E (snd (current ! i))"
  have d: "drop i current = current ! i # drop (Suc i) current"
    using il by (simp add: Cons_nth_drop_Suc)
  show ?case
  proof (cases "charsOf E (drop (Suc i) current) + ?c > budget \<and> drop (Suc i) current \<noteq> []")
    case True
    then have "sliceLoop E current budget (Suc i) (rev (drop (Suc i) current)) (charsOf E (drop (Suc i) current))
               = rev (drop (Suc i) current)"
      by (simp add: Let_def)
    moreover from True have "charsOf E (drop i current) > budget" by (subst d) simp
    moreover from True have "Suc i < length current" by simp
    ultimately show ?thesis using Suc.prems(2) by (intro exI[of _ "Suc i"]) simp
  next
    case False
    have r: "rev (drop i current) = rev (drop (Suc i) current) @ [current ! i]"
      by (subst d) simp
    have u: "charsOf E (drop i current) = charsOf E (drop (Suc i) current) + ?c"
      by (subst d) simp
    have s: "sliceLoop E current budget (Suc i) (rev (drop (Suc i) current)) (charsOf E (drop (Suc i) current))
               = sliceLoop E current budget i (rev (drop i current)) (charsOf E (drop i current))"
      using False unfolding r u by (auto simp: Let_def)
    have inv: "length current - i \<ge> 2 \<longrightarrow> charsOf E (drop i current) \<le> budget"
    proof
      assume "length current - i \<ge> 2"
      then have "drop (Suc i) current \<noteq> []" by simp
      with False have "charsOf E (drop (Suc i) current) + ?c \<le> budget" by auto
      then show "charsOf E (drop i current) \<le> budget" by (subst d) simp
    qed
    from Suc.IH[OF _ inv] il obtain j where j: "j \<le> i"
      "sliceLoop E current budget i (rev (drop i current)) (charsOf E (drop i current)) = rev (drop j current)"
      "length current - j \<ge> 2 \<longrightarrow> charsOf E (drop j current) \<le> budget"
      "j > 0 \<longrightarrow> charsOf E (drop (j - 1) current) > budget \<and> j < length current"
      by auto
    from j show ?thesis by (intro exI[of _ j]) (auto simp: s simp del: sliceLoop.simps)
  qed
qed

lemma sliceWithinBudget_char:
  "\<exists>j\<le>length current. sliceWithinBudget E current budget = drop j current
        \<and> (length current > 0 \<longrightarrow> j < length current)
        \<and> (length current - j \<ge> 2 \<longrightarrow> charsOf E (drop j current) \<le> budget)
        \<and> (j > 0 \<longrightarrow> charsOf E (drop (j - 1) current) > budget)"
proof -
  from sliceLoop_char[of "length current" current E budget]
  obtain j where j: "j \<le> length current"
      "sliceLoop E current budget (length current) [] 0 = rev (drop j current)"
      "length current - j \<ge> 2 \<longrightarrow> charsOf E (drop j current) \<le> budget"
      "j > 0 \<longrightarrow> charsOf E (drop (j - 1) current) > budget \<and> j < length current"
      "j = length current \<and> length current > 0 \<longrightarrow> length current < length current"
    by auto
  then show ?thesis
    by (intro exI[of _ j]) (auto simp: sliceWithinBudget_def)
qed

lemma assistants_simps [simp]:
  "assistants [] = 0"
  "assistants (xs @ ys) = assistants xs + assistants ys"
  "assistants [m] = (if role m = Assistant then 1 else 0)"
  by (simp_all add: assistants_def)

lemma cutoffLoop_char:
  "i \<le> length msgs \<Longrightarrow> remaining \<ge> 1 \<Longrightarrow>
   (case cutoffLoop msgs remaining i of
      None \<Rightarrow> assistants (take i msgs) < remaining
    | Some c \<Rightarrow> c < i \<and> role (msgs ! c) = Assistant \<and> assistants (drop c (take i msgs)) = remaining)"
proof (induction i arbitrary: remaining)
  case 0
  then show ?case by simp
next
  case (Suc i)
  then have il: "i < length msgs" by simp
  have t: "take (Suc i) msgs = take i msgs @ [msgs ! i]"
    using il by (rule take_Suc_conv_app_nth)
  have di: "drop i (take i msgs) = []" by simp
  show ?case
  proof (cases "role (msgs ! i) = Assistant")
    case False
    with Suc.IH[of remaining] Suc.prems il show ?thesis
      by (auto simp: t split: option.splits)
  next
    case True
    show ?thesis
    proof (cases "remaining - 1 = 0")
      case True
      with \<open>role (msgs ! i) = Assistant\<close> Suc.prems il show ?thesis
        by (auto simp: t)
    next
      case False
      then have "remaining - 1 \<ge> 1" by simp
      with Suc.IH[of "remaining - 1"] \<open>role (msgs ! i) = Assistant\<close> False Suc.prems il show ?thesis
        by (auto simp: t split: option.splits)
    qed
  qed
qed

lemma findAssistantCutoffIndex_char:
  "case findAssistantCutoffIndex msgs k of
     None \<Rightarrow> k \<ge> 1 \<and> assistants msgs < k
   | Some c \<Rightarrow> (if k = 0 then c = length msgs
                else c < length msgs \<and> role (msgs ! c) = Assistant \<and> assistants (drop c msgs) = k)"
proof (cases "k = 0")
  case True
  then show ?thesis by (simp add: findAssistantCutoffIndex_def)
next
  case False
  then have "k \<ge> 1" by simp
  from cutoffLoop_char[OF le_refl this, of msgs] False show ?thesis
    by (auto simp: findAssistantCutoffIndex_def split: option.splits)
qed

lemma filter_complement_suffix:
  assumes "distinct (map f (xs @ ys))"
  shows "filter (\<lambda>m. f m \<notin> f ` set ys) (xs @ ys) = xs"
proof -
  from assms have "\<forall>x\<in>set xs. f x \<notin> f ` set ys" by auto
  then have "filter (\<lambda>m. f m \<notin> f ` set ys) xs = xs" by (simp add: filter_id_conv)
  moreover have "filter (\<lambda>m. f m \<notin> f ` set ys) ys = []" by (simp add: filter_empty_conv)
  ultimately show ?thesis by simp
qed

lemma dropMessages_char:
  assumes "dropMessages E current k budget = (kept, dropped)"
  shows "\<exists>c j.
      (if k = 0 then c = length current
       else if assistants (map snd current) < k then c = 0
       else c < length current \<and> role (snd (current ! c)) = Assistant
            \<and> assistants (map snd (drop c current)) = k)
    \<and> j \<le> length current \<and> kept = drop j current
    \<and> (if estimateMessagesChars E (map snd (drop c current)) \<le> budget
        then j \<le> c
           \<and> charsOf E (take (c - j) (drop j current))
               \<le> budget - estimateMessagesChars E (map snd (drop c current))
           \<and> (j = 0 \<or> estimateMessageChars E (snd (current ! (j - 1)))
                          + charsOf E (take (c - j) (drop j current))
                        > budget - estimateMessagesChars E (map snd (drop c current)))
        else (length current > 0 \<longrightarrow> j < length current)
           \<and> (length current - j \<ge> 2 \<longrightarrow> charsOf E (drop j current) \<le> budget)
           \<and> (j > 0 \<longrightarrow> charsOf E (drop (j - 1) current) > budget))
    \<and> dropped = filter (\<lambda>m. fst m \<notin> fst ` set kept) current
    \<and> (distinct (map fst current) \<longrightarrow> dropped = take j current)"
proof -
  let ?vals = "map snd current"
  define c where "c = (case findAssistantCutoffIndex ?vals k of None \<Rightarrow> 0 | Some i \<Rightarrow> i)"
  have cchar: "if k = 0 then c = length current
       else if assistants ?vals < k then c = 0
       else c < length current \<and> role (snd (current ! c)) = Assistant
            \<and> assistants (map snd (drop c current)) = k"
  proof (cases "findAssistantCutoffIndex ?vals k")
    case None
    with findAssistantCutoffIndex_char[where msgs="?vals" and k=k] show ?thesis by (simp add: c_def)
  next
    case (Some i)
    with findAssistantCutoffIndex_char[where msgs="?vals" and k=k] have
      i: "if k = 0 then i = length current
          else i < length current \<and> role (?vals ! i) = Assistant \<and> assistants (drop i ?vals) = k"
      by (auto split: if_splits)
    have "assistants ?vals = assistants (take i ?vals) + assistants (drop i ?vals)"
      by (metis append_take_drop_id assistants_simps(2))
    with i Some show ?thesis by (auto simp: c_def drop_map)
  qed
  then have cle: "c \<le> length current" by (auto split: if_splits)
  let ?pc = "estimateMessagesChars E (map snd (drop c current))"
  have kept: "kept = (if ?pc > budget then sliceWithinBudget E current budget
                      else fillLoop E current c (drop c current) (budget - ?pc))"
    and dropped: "dropped = filter (\<lambda>m. fst m \<notin> fst ` set kept) current"
    using assms by (auto simp: dropMessages_def Let_def c_def)
  have "\<exists>j\<le>length current. kept = drop j current
      \<and> (if ?pc \<le> budget
        then j \<le> c
           \<and> charsOf E (take (c - j) (drop j current)) \<le> budget - ?pc
           \<and> (j = 0 \<or> estimateMessageChars E (snd (current ! (j - 1)))
                          + charsOf E (take (c - j) (drop j current)) > budget - ?pc)
        else (length current > 0 \<longrightarrow> j < length current)
           \<and> (length current - j \<ge> 2 \<longrightarrow> charsOf E (drop j current) \<le> budget)
           \<and> (j > 0 \<longrightarrow> charsOf E (drop (j - 1) current) > budget))"
  proof (cases "?pc > budget")
    case True
    from sliceWithinBudget_char[of current E budget] obtain j where
      "j \<le> length current" "sliceWithinBudget E current budget = drop j current"
      "length current > 0 \<longrightarrow> j < length current"
      "length current - j \<ge> 2 \<longrightarrow> charsOf E (drop j current) \<le> budget"
      "j > 0 \<longrightarrow> charsOf E (drop (j - 1) current) > budget"
      by auto
    with True kept show ?thesis by (intro exI[of _ j]) simp
  next
    case False
    from fillLoop_char[OF cle, of E "budget - ?pc"] obtain j where
      "j \<le> c" "fillLoop E current c (drop c current) (budget - ?pc) = drop j current"
      "charsOf E (take (c - j) (drop j current)) \<le> budget - ?pc"
      "j = 0 \<or> estimateMessageChars E (snd (current ! (j - 1)))
                + charsOf E (take (c - j) (drop j current)) > budget - ?pc"
      by auto
    with False kept cle show ?thesis by (intro exI[of _ j]) simp
  qed
  then obtain j where j: "j \<le> length current" "kept = drop j current"
    "if ?pc \<le> budget
        then j \<le> c
           \<and> charsOf E (take (c - j) (drop j current)) \<le> budget - ?pc
           \<and> (j = 0 \<or> estimateMessageChars E (snd (current ! (j - 1)))
                          + charsOf E (take (c - j) (drop j current)) > budget - ?pc)
        else (length current > 0 \<longrightarrow> j < length current)
           \<and> (length current - j \<ge> 2 \<longrightarrow> charsOf E (drop j current) \<le> budget)
           \<and> (j > 0 \<longrightarrow> charsOf E (drop (j - 1) current) > budget)"
    by blast
  have pos: "distinct (map fst current) \<longrightarrow> dropped = take j current"
  proof
    assume "distinct (map fst current)"
    then have "distinct (map fst (take j current @ drop j current))" by simp
    from filter_complement_suffix[OF this] show "dropped = take j current"
      by (simp add: dropped j(2))
  qed
  from cchar j dropped pos show ?thesis by blast
qed

text \<open>
  Claim C4. Let \<open>current\<close> be the messages after layers 1 and 2, estimated over the budget
  of the pruner, \<open>budgetChars\<close> as the result reports it. The pruner protects the suffix that
  starts at index \<open>c\<close>: the \<open>keepLastAssistants\<close>-th assistant message from the end when there
  is one (the whole list when there are fewer assistant messages, nothing when
  \<open>keepLastAssistants\<close> is 0). The kept messages are a suffix of \<open>current\<close>, from an index
  \<open>j\<close>. When the protected suffix is within the budget, it is kept and extended backwards
  by whole messages that fit what is left of the budget, up to the first message that does
  not fit. When the protected suffix exceeds the budget, the kept messages are filled
  backwards from the end: the last message, then the messages before it while the sum
  stays within the budget. The dropped messages are the messages of \<open>current\<close> that are not
  among the kept objects, in the order of \<open>current\<close>: the prefix before \<open>j\<close>, when no object
  occurs twice. (\<open>dropMessages_char\<close> is the same statement of layer 3 alone, for every
  budget.)
\<close>

theorem messageDrop_layer3:
  assumes "settings = resolvePruningSettings raw"
    and "current = fst (pruneLayer2 E (pruneLayer1 E nxt msgs cwt settings) cwt settings)"
    and "budget = pr_budgetChars (fst (pruneContextMessages E nxt msgs cwt raw))"
    and "estimateMessagesChars E (map snd current) > budget"
    and "k = keepLastAssistants settings"
    and "kept = pr_messages (fst (pruneContextMessages E nxt msgs cwt raw))"
    and "dropped = pr_droppedMessages (fst (pruneContextMessages E nxt msgs cwt raw))"
  shows "\<exists>c j.
      (if k = 0 then c = length current
       else if assistants (map snd current) < k then c = 0
       else c < length current \<and> role (snd (current ! c)) = Assistant
            \<and> assistants (map snd (drop c current)) = k)
    \<and> j \<le> length current \<and> kept = drop j current
    \<and> (if estimateMessagesChars E (map snd (drop c current)) \<le> budget
        then j \<le> c
           \<and> charsOf E (take (c - j) (drop j current))
               \<le> budget - estimateMessagesChars E (map snd (drop c current))
           \<and> (j = 0 \<or> estimateMessageChars E (snd (current ! (j - 1)))
                          + charsOf E (take (c - j) (drop j current))
                        > budget - estimateMessagesChars E (map snd (drop c current)))
        else (length current > 0 \<longrightarrow> j < length current)
           \<and> (length current - j \<ge> 2 \<longrightarrow> charsOf E (drop j current) \<le> budget)
           \<and> (j > 0 \<longrightarrow> charsOf E (drop (j - 1) current) > budget))
    \<and> dropped = filter (\<lambda>m. fst m \<notin> fst ` set kept) current
    \<and> (distinct (map fst current) \<longrightarrow> dropped = take j current)"
proof -
  have b: "budget = budgetCharsOf settings cwt"
    unfolding assms(3)
    by (cases "dropMessages E current k (budgetCharsOf settings cwt)")
       (simp add: pruneContextMessages_def Let_def assms(1,2,5))
  have "dropMessages E current k budget = (kept, dropped)"
    using assms(1,2,4-7) b by (cases "dropMessages E current k budget")
      (simp add: pruneContextMessages_def Let_def)
  then show ?thesis by (rule dropMessages_char)
qed

lemma ex_keep_settings: "resolvePruningSettings (Some ex_rawKeepOne) =
   \<lparr>maxHistoryShare = 1 / 2, keepLastAssistants = 1, softTrimRatio = 3 / 10, hardClearRatio = 1 / 2,
    minPrunableToolChars = 50000,
    softTrim = \<lparr>maxChars = 4000, headChars = 1500, tailChars = 1500\<rparr>,
    hardClear = \<lparr>enabled = True, placeholder = ''[Old tool result content cleared]''\<rparr>,
    tools = \<lparr>tm_allow = None, tm_deny = None\<rparr>\<rparr>"
  by (simp add: resolvePruningSettings_def ex_rawKeepOne_def DEFAULT_CONTEXT_PRUNING_SETTINGS_def
       clampShare_def clampPositiveInt_def Let_def)

lemma ex_window: "charWindowOf 10 = 40"
  by (simp add: charWindowOf_def CHARS_PER_TOKEN_ESTIMATE_def)

lemma ex_budget: "budgetCharsOf (resolvePruningSettings (Some ex_rawKeepOne)) 10 = 20"
  by (simp add: budgetCharsOf_def ex_window ex_keep_settings toDouble_values)

lemma charEstimator_sel:
  "estimateMessageChars charEstimator = messageChars"
  "estimateMessagesChars charEstimator ms = sum_list (map messageChars ms)"
  by (simp_all add: charEstimator_def)

lemma ex_history_chars:
  "sum_list (map messageChars (map snd ex_history)) = 40"
  "sum_list (map (messageChars \<circ> snd) ex_history) = 40"
  "sum_list (map (messageChars \<circ> snd) (drop 2 ex_history)) = 20"
  by (simp_all add: ex_history_def messageChars_def)

lemma ex_layer1:
  "pruneLayer1 charEstimator 4 ex_history 10 (resolvePruningSettings (Some ex_rawKeepOne))
     = (ex_history, 0, 4)"
proof -
  have "applySoftTrim 4 ex_history (resolvePruningSettings (Some ex_rawKeepOne))
          (makeToolPrunablePredicate (Some (tools (resolvePruningSettings (Some ex_rawKeepOne)))))
        = (ex_history, 0, 4)"
    by (simp add: ex_history_def)
  then show ?thesis
    by (simp add: pruneLayer1_def Let_def)
qed

lemma ex_layer2:
  "pruneLayer2 charEstimator (ex_history, 0, 4) 10 (resolvePruningSettings (Some ex_rawKeepOne))
     = (ex_history, 0, 4)"
proof -
  have "countPrunableToolChars (map snd ex_history)
          (makeToolPrunablePredicate (Some (tools (resolvePruningSettings (Some ex_rawKeepOne))))) = 0"
    by (simp add: countPrunableToolChars_def ex_history_def)
  then show ?thesis
    by (simp add: pruneLayer2_def applyHardClear_def Let_def ex_keep_settings
          charEstimator_sel ex_history_chars ex_window)
qed

lemma ex_drop:
  "dropMessages charEstimator ex_history 1 20 = (drop 2 ex_history, take 2 ex_history)"
  by (simp add: dropMessages_def findAssistantCutoffIndex_def ex_history_def
        charEstimator_sel messageChars_def Let_def)

lemma ex_prune:
  "fst (pruneContextMessages charEstimator 4 ex_history 10 (Some ex_rawKeepOne))
     = \<lparr>pr_messages = drop 2 ex_history, pr_droppedMessages = take 2 ex_history,
        pr_trimmedToolResults = 0, pr_hardClearedToolResults = 0,
        pr_totalChars = 40, pr_keptChars = 20, pr_droppedChars = 20, pr_budgetChars = 20\<rparr>"
proof -
  have k: "keepLastAssistants (resolvePruningSettings (Some ex_rawKeepOne)) = 1"
    by (simp add: ex_keep_settings)
  have d: "dropMessages charEstimator ex_history (Suc 0) 20 = (drop 2 ex_history, take 2 ex_history)"
    using ex_drop by simp
  show ?thesis
    unfolding pruneContextMessages_def Let_def ex_layer1 ex_layer2 ex_budget k
    by (simp add: charEstimator_sel ex_history_chars d)
qed

theorem messageDrop_layer3_witness:
  "estimateMessagesChars charEstimator (map snd ex_history) > 20
   \<and> pr_messages (fst (pruneContextMessages charEstimator 4 ex_history 10 (Some ex_rawKeepOne)))
       = drop 2 ex_history
   \<and> pr_droppedMessages (fst (pruneContextMessages charEstimator 4 ex_history 10 (Some ex_rawKeepOne)))
       = take 2 ex_history
   \<and> (\<exists>c j.
      (if (1::nat) = 0 then c = length ex_history
       else if assistants (map snd ex_history) < 1 then c = 0
       else c < length ex_history \<and> role (snd (ex_history ! c)) = Assistant
            \<and> assistants (map snd (drop c ex_history)) = 1)
    \<and> j \<le> length ex_history \<and> (drop 2 ex_history) = drop j ex_history
    \<and> (if estimateMessagesChars charEstimator (map snd (drop c ex_history)) \<le> 20
        then j \<le> c
           \<and> charsOf charEstimator (take (c - j) (drop j ex_history))
               \<le> 20 - estimateMessagesChars charEstimator (map snd (drop c ex_history))
           \<and> (j = 0 \<or> estimateMessageChars charEstimator (snd (ex_history ! (j - 1)))
                          + charsOf charEstimator (take (c - j) (drop j ex_history))
                        > 20 - estimateMessagesChars charEstimator (map snd (drop c ex_history)))
        else (length ex_history > 0 \<longrightarrow> j < length ex_history)
           \<and> (length ex_history - j \<ge> 2 \<longrightarrow> charsOf charEstimator (drop j ex_history) \<le> 20)
           \<and> (j > 0 \<longrightarrow> charsOf charEstimator (drop (j - 1) ex_history) > 20))
    \<and> (take 2 ex_history) = filter (\<lambda>m. fst m \<notin> fst ` set (drop 2 ex_history)) ex_history
    \<and> (distinct (map fst ex_history) \<longrightarrow> (take 2 ex_history) = take j ex_history))"
proof -
  have h: "estimateMessagesChars charEstimator (map snd ex_history) > 20"
    by (simp add: charEstimator_sel ex_history_chars)
  have p2: "ex_history = fst (pruneLayer2 charEstimator
              (pruneLayer1 charEstimator 4 ex_history 10 (resolvePruningSettings (Some ex_rawKeepOne)))
              10 (resolvePruningSettings (Some ex_rawKeepOne)))"
    by (simp add: ex_layer1 ex_layer2)
  have p5: "1 = keepLastAssistants (resolvePruningSettings (Some ex_rawKeepOne))"
    by (simp add: ex_keep_settings)
  have p6: "drop 2 ex_history
              = pr_messages (fst (pruneContextMessages charEstimator 4 ex_history 10 (Some ex_rawKeepOne)))"
    by (simp add: ex_prune)
  have p7: "take 2 ex_history
              = pr_droppedMessages (fst (pruneContextMessages charEstimator 4 ex_history 10 (Some ex_rawKeepOne)))"
    by (simp add: ex_prune)
  have p3: "20 = pr_budgetChars (fst (pruneContextMessages charEstimator 4 ex_history 10 (Some ex_rawKeepOne)))"
    by (simp add: ex_prune)
  note T = messageDrop_layer3[OF refl p2 p3 h p5 p6 p7]
  from h p6[symmetric] p7[symmetric] T show ?thesis by (intro conjI)
qed

section \<open>Context pruning: a second pass\<close>

lemma softTrimBlocks_zero:
  "snd (softTrimBlocks st P bs) = 0 \<Longrightarrow> fst (softTrimBlocks st P bs) = bs"
proof (induction bs)
  case Nil
  show ?case by simp
next
  case (Cons b rest)
  obtain b' t where b: "softTrimToolResultBlock b st P = (b', t)" by (cases "softTrimToolResultBlock b st P")
  obtain bs' n where r: "softTrimBlocks st P rest = (bs', n)" by (cases "softTrimBlocks st P rest")
  from Cons.prems b r have z: "\<not> t" "n = 0" by (auto split: if_splits)
  have "b' = b" using b z(1)
    by (cases b) (auto simp: Let_def split: if_splits)
  moreover have "bs' = rest" using Cons.IH r z(2) by simp
  ultimately show ?case using b r by simp
qed

lemma applySoftTrim_count:
  "fst (snd (applySoftTrim nxt M S P)) = sum_list (map (softTrimCount S P) M)"
proof (induction M arbitrary: nxt)
  case Nil
  show ?case by simp
next
  case (Cons msg rest)
  obtain o1 n1 x1 where r1: "applySoftTrim nxt rest S P = (o1, n1, x1)"
    by (cases "applySoftTrim nxt rest S P")
  obtain o2 n2 x2 where r2: "applySoftTrim (nxt + 1) rest S P = (o2, n2, x2)"
    by (cases "applySoftTrim (nxt + 1) rest S P")
  from Cons.IH[of nxt] r1 have n1: "n1 = sum_list (map (softTrimCount S P) rest)" by simp
  from Cons.IH[of "nxt + 1"] r2 have n2: "n2 = sum_list (map (softTrimCount S P) rest)" by simp
  show ?case
  proof (cases "content (snd msg)")
    case (Str s)
    then have "softTrimCount S P msg = 0" by (simp add: softTrimCount_def)
    then show ?thesis using Str r1 n1 by simp
  next
    case (Blocks bs)
    obtain nb k where sb: "softTrimBlocks (softTrim S) P bs = (nb, k)"
      by (cases "softTrimBlocks (softTrim S) P bs")
    with Blocks have "softTrimCount S P msg = k" by (simp add: softTrimCount_def)
    then show ?thesis using Blocks sb r1 r2 n1 n2 by simp
  qed
qed

lemma applySoftTrim_zero:
  "sum_list (map (softTrimCount S P) M) = 0 \<Longrightarrow> applySoftTrim nxt M S P = (M, 0, nxt)"
proof (induction M)
  case Nil
  show ?case by simp
next
  case (Cons msg rest)
  then have r: "applySoftTrim nxt rest S P = (rest, 0, nxt)" and z: "softTrimCount S P msg = 0" by simp_all
  show ?case
  proof (cases "content (snd msg)")
    case (Str s)
    then show ?thesis using r by simp
  next
    case (Blocks bs)
    obtain nb k where sb: "softTrimBlocks (softTrim S) P bs = (nb, k)"
      by (cases "softTrimBlocks (softTrim S) P bs")
    with z Blocks have "k = 0" by (simp add: softTrimCount_def)
    then show ?thesis using Blocks sb r by simp
  qed
qed

lemma sum_list_drop_zero:
  fixes f :: "'a \<Rightarrow> nat"
  shows "sum_list (map f xs) = 0 \<Longrightarrow> sum_list (map f (drop j xs)) = 0"
  by (auto dest: in_set_dropD)

lemma sum_list_drop_le:
  fixes f :: "'a \<Rightarrow> nat"
  shows "sum_list (map f (drop j xs)) \<le> sum_list (map f xs)"
proof -
  have "sum_list (map f xs) = sum_list (map f (take j xs)) + sum_list (map f (drop j xs))"
    by (metis append_take_drop_id map_append sum_list.append)
  then show ?thesis by simp
qed

lemma hardClearBlocks_free:
  "\<forall>b \<in> set bs. \<not> hardClearCandidate P b \<Longrightarrow> hardClearBlocks hc rl P W t bs = (bs, 0, t)"
proof (induction bs)
  case Nil
  show ?case by simp
next
  case (Cons b rest)
  then have r: "hardClearBlocks hc rl P W t rest = (rest, 0, t)" and nb: "\<not> hardClearCandidate P b"
    by simp_all
  show ?case
  proof (cases b)
    case (ToolResult tid nm c)
    show ?thesis
    proof (cases c)
      case None
      with ToolResult r show ?thesis by simp
    next
      case (Some s)
      with ToolResult nb r show ?thesis by (auto simp: isToolResultProtected_def)
    qed
  qed (simp_all add: r)
qed

lemma hardClearBlocks_zero:
  "\<not> (of_int t / of_int W < rl) \<Longrightarrow> fst (snd (hardClearBlocks hc rl P W t bs)) = 0
     \<Longrightarrow> \<forall>b \<in> set bs. \<not> hardClearCandidate P b"
proof (induction bs)
  case Nil
  show ?case by simp
next
  case (Cons b rest)
  show ?case
  proof (cases "hardClearCandidate P b")
    case True
    then obtain tid nm s where b: "b = ToolResult tid nm (Some s)"
      by (cases b; cases "case b of ToolResult _ _ c \<Rightarrow> c | _ \<Rightarrow> None") auto
    with True Cons.prems show ?thesis
      by (auto simp: isToolResultProtected_def split: prod.splits)
  next
    case False
    then have "hardClearBlocks hc rl P W t (b # rest)
                 = (case hardClearBlocks hc rl P W t rest of (bs, n, t') \<Rightarrow> (b # bs, n, t'))"
    proof (cases b)
      case (ToolResult tid nm c)
      with False show ?thesis by (cases c) (auto simp: isToolResultProtected_def)
    qed simp_all
    with Cons.prems have "fst (snd (hardClearBlocks hc rl P W t rest)) = 0"
      by (simp split: prod.splits)
    with Cons.IH Cons.prems(1) False show ?thesis by simp
  qed
qed

lemma hardClearMessages_free:
  "\<forall>m \<in> set M. candidateFree P m \<Longrightarrow> hardClearMessages nxt hc rl P W t M = (M, 0, nxt)"
proof (induction M)
  case Nil
  show ?case by simp
next
  case (Cons msg rest)
  then have r: "hardClearMessages nxt hc rl P W t rest = (rest, 0, nxt)" and f: "candidateFree P msg"
    by simp_all
  show ?case
  proof (cases "content (snd msg)")
    case (Str s)
    then show ?thesis using r by simp
  next
    case (Blocks bs)
    with f have "hardClearBlocks hc rl P W t bs = (bs, 0, t)"
      by (simp add: candidateFree_def hardClearBlocks_free)
    then show ?thesis using Blocks r by simp
  qed
qed

lemma hardClearMessages_zero:
  "\<not> (of_int t / of_int W < rl) \<Longrightarrow> fst (snd (hardClearMessages nxt hc rl P W t M)) = 0
     \<Longrightarrow> \<forall>m \<in> set M. candidateFree P m"
proof (induction M arbitrary: nxt)
  case Nil
  show ?case by simp
next
  case (Cons msg rest)
  show ?case
  proof (cases "content (snd msg)")
    case (Str s)
    with Cons.prems have "fst (snd (hardClearMessages nxt hc rl P W t rest)) = 0"
      by (simp split: prod.splits)
    with Cons.IH[OF Cons.prems(1)] Str show ?thesis by (simp add: candidateFree_def)
  next
    case (Blocks bs)
    obtain nb k t' where hb: "hardClearBlocks hc rl P W t bs = (nb, k, t')"
      by (cases "hardClearBlocks hc rl P W t bs")
    from Cons.prems(2) Blocks hb have k: "k = 0"
      by (auto split: if_splits prod.splits)
    with hb have "fst (snd (hardClearBlocks hc rl P W t bs)) = 0" by simp
    from hardClearBlocks_zero[OF Cons.prems(1) this] have fr: "\<forall>b \<in> set bs. \<not> hardClearCandidate P b" .
    then have "hardClearBlocks hc rl P W t bs = (bs, 0, t)" by (rule hardClearBlocks_free)
    with hb have t': "t' = t" by simp
    from Cons.prems(2) Blocks hb k t' have "fst (snd (hardClearMessages nxt hc rl P W t rest)) = 0"
      by (simp split: prod.splits)
    with Cons.IH[OF Cons.prems(1)] fr Blocks show ?thesis by (simp add: candidateFree_def)
  qed
qed

lemma charWindowOf_pos: "0 < charWindowOf w"
  by (simp add: charWindowOf_def CHARS_PER_TOKEN_ESTIMATE_def)

lemma estimate_suffix:
  assumes "\<forall>ms. estimateMessagesChars E ms = sum_list (map (estimateMessageChars E) ms)"
  shows "estimateMessagesChars E (map snd (drop j M)) \<le> estimateMessagesChars E (map snd M)"
  using assms sum_list_drop_le[of "estimateMessageChars E" j "map snd M"] by (simp add: drop_map)

lemma estimate_charsOf:
  assumes "\<forall>ms. estimateMessagesChars E ms = sum_list (map (estimateMessageChars E) ms)"
  shows "estimateMessagesChars E (map snd M) = charsOf E M"
  using assms by (simp add: charsOf_def o_def)

lemma ratio_suffix:
  assumes "\<forall>ms. estimateMessagesChars E ms = sum_list (map (estimateMessageChars E) ms)"
  shows "(of_nat (estimateMessagesChars E (map snd (drop j M))) :: rat) / of_int (charWindowOf w)
           \<le> of_nat (estimateMessagesChars E (map snd M)) / of_int (charWindowOf w)"
proof -
  have "(of_nat (estimateMessagesChars E (map snd (drop j M))) :: rat)
          \<le> of_nat (estimateMessagesChars E (map snd M))"
    using estimate_suffix[OF assms, of j M] by simp
  moreover have "(0 :: rat) \<le> of_int (charWindowOf w)" using charWindowOf_pos[of w] by simp
  ultimately show ?thesis by (rule divide_right_mono)
qed

lemma pruneLayer1_zero:
  assumes "fst (snd (pruneLayer1 E nxt M w S)) = 0"
  shows "pruneLayer1 E nxt M w S = (M, 0, nxt)"
proof (cases "of_nat (estimateMessagesChars E (map snd M)) / of_int (charWindowOf w) > softTrimRatio S")
  case True
  with assms have "fst (snd (applySoftTrim nxt M S (makeToolPrunablePredicate (Some (tools S))))) = 0"
    by (simp add: pruneLayer1_def Let_def)
  then have "applySoftTrim nxt M S (makeToolPrunablePredicate (Some (tools S))) = (M, 0, nxt)"
    by (simp add: applySoftTrim_count applySoftTrim_zero)
  with True show ?thesis by (simp add: pruneLayer1_def Let_def)
next
  case False
  then show ?thesis by (simp add: pruneLayer1_def Let_def)
qed

lemma pruneLayer1_zero_suffix:
  assumes "\<forall>ms. estimateMessagesChars E ms = sum_list (map (estimateMessageChars E) ms)"
    and "fst (snd (pruneLayer1 E nxt M w S)) = 0"
  shows "pruneLayer1 E nxt' (drop j M) w S = (drop j M, 0, nxt')"
proof (cases "of_nat (estimateMessagesChars E (map snd M)) / of_int (charWindowOf w) > softTrimRatio S")
  case True
  with assms(2) have "fst (snd (applySoftTrim nxt M S (makeToolPrunablePredicate (Some (tools S))))) = 0"
    by (simp add: pruneLayer1_def Let_def)
  then have "sum_list (map (softTrimCount S (makeToolPrunablePredicate (Some (tools S)))) M) = 0"
    by (simp add: applySoftTrim_count)
  then have "sum_list (map (softTrimCount S (makeToolPrunablePredicate (Some (tools S)))) (drop j M)) = 0"
    by (rule sum_list_drop_zero)
  then have "applySoftTrim nxt' (drop j M) S (makeToolPrunablePredicate (Some (tools S)))
               = (drop j M, 0, nxt')"
    by (rule applySoftTrim_zero)
  then show ?thesis by (simp add: pruneLayer1_def Let_def)
next
  case False
  with ratio_suffix[OF assms(1), of j M w]
  have "\<not> of_nat (estimateMessagesChars E (map snd (drop j M))) / of_int (charWindowOf w) > softTrimRatio S"
    by simp
  then show ?thesis by (simp add: pruneLayer1_def Let_def)
qed

lemma applyHardClear_zero:
  assumes "fst (snd (applyHardClear E nxt M S P W)) = 0"
  shows "applyHardClear E nxt M S P W = (M, 0, nxt)"
proof -
  let ?t = "int (estimateMessagesChars E (map snd M))"
  show ?thesis
  proof (cases "enabled (hardClear S) \<and> \<not> (of_int ?t / of_int W < hardClearRatio S)
                 \<and> \<not> countPrunableToolChars (map snd M) P < minPrunableToolChars S")
    case False
    then show ?thesis by (auto simp: applyHardClear_def Let_def)
  next
    case True
    then have eq: "applyHardClear E nxt M S P W
        = hardClearMessages nxt (hardClear S) (hardClearRatio S) P W ?t M"
      by (simp add: applyHardClear_def Let_def)
    with assms have "fst (snd (hardClearMessages nxt (hardClear S) (hardClearRatio S) P W ?t M)) = 0"
      by simp
    from hardClearMessages_zero[OF _ this] True have "\<forall>m \<in> set M. candidateFree P m" by simp
    then show ?thesis unfolding eq by (rule hardClearMessages_free)
  qed
qed

lemma countPrunable_suffix:
  "countPrunableToolChars (map snd (drop j M)) P \<le> countPrunableToolChars (map snd M) P"
  unfolding countPrunableToolChars_def drop_map[symmetric, of snd] by (rule sum_list_drop_le)

lemma applyHardClear_zero_suffix:
  assumes "\<forall>ms. estimateMessagesChars E ms = sum_list (map (estimateMessageChars E) ms)"
    and "fst (snd (applyHardClear E nxt M S P (charWindowOf w))) = 0"
    and "of_nat (estimateMessagesChars E (map snd M)) / of_int (charWindowOf w) > hardClearRatio S"
  shows "applyHardClear E nxt' (drop j M) S P (charWindowOf w) = (drop j M, 0, nxt')"
proof -
  let ?W = "charWindowOf w"
  let ?t = "int (estimateMessagesChars E (map snd M))"
  let ?t' = "int (estimateMessagesChars E (map snd (drop j M)))"
  show ?thesis
  proof (cases "enabled (hardClear S) \<and> \<not> (of_int ?t' / of_int ?W < hardClearRatio S)
                 \<and> \<not> countPrunableToolChars (map snd (drop j M)) P < minPrunableToolChars S")
    case False
    then show ?thesis by (auto simp: applyHardClear_def Let_def)
  next
    case True
    then have eq': "applyHardClear E nxt' (drop j M) S P ?W
        = hardClearMessages nxt' (hardClear S) (hardClearRatio S) P ?W ?t' (drop j M)"
      by (simp add: applyHardClear_def Let_def)
    from True countPrunable_suffix[of j M P]
    have c: "\<not> countPrunableToolChars (map snd M) P < minPrunableToolChars S" by simp
    from assms(3) have r: "\<not> (of_int ?t / of_int ?W < hardClearRatio S)" by simp
    from True c r have eq: "applyHardClear E nxt M S P ?W
        = hardClearMessages nxt (hardClear S) (hardClearRatio S) P ?W ?t M"
      by (simp add: applyHardClear_def Let_def)
    with assms(2) have "fst (snd (hardClearMessages nxt (hardClear S) (hardClearRatio S) P ?W ?t M)) = 0"
      by simp
    from hardClearMessages_zero[OF r this] have "\<forall>m \<in> set M. candidateFree P m" .
    then have "\<forall>m \<in> set (drop j M). candidateFree P m" by (auto dest: in_set_dropD)
    then show ?thesis unfolding eq' by (rule hardClearMessages_free)
  qed
qed

lemma pruneLayer2_zero:
  assumes "fst (snd (pruneLayer2 E (M, n, nxt) w S)) = 0"
  shows "pruneLayer2 E (M, n, nxt) w S = (M, 0, nxt)"
proof (cases "of_nat (estimateMessagesChars E (map snd M)) / of_int (charWindowOf w) > hardClearRatio S")
  case True
  with assms have "fst (snd (applyHardClear E nxt M S (makeToolPrunablePredicate (Some (tools S)))
                      (charWindowOf w))) = 0"
    by (simp add: pruneLayer2_def Let_def)
  then have "applyHardClear E nxt M S (makeToolPrunablePredicate (Some (tools S))) (charWindowOf w)
               = (M, 0, nxt)"
    by (rule applyHardClear_zero)
  with True show ?thesis by (simp add: pruneLayer2_def Let_def)
next
  case False
  then show ?thesis by (simp add: pruneLayer2_def Let_def)
qed

lemma pruneLayer2_zero_suffix:
  assumes "\<forall>ms. estimateMessagesChars E ms = sum_list (map (estimateMessageChars E) ms)"
    and "fst (snd (pruneLayer2 E (M, n, nxt) w S)) = 0"
  shows "pruneLayer2 E (drop j M, n', nxt') w S = (drop j M, 0, nxt')"
proof (cases "of_nat (estimateMessagesChars E (map snd M)) / of_int (charWindowOf w) > hardClearRatio S")
  case True
  with assms(2) have "fst (snd (applyHardClear E nxt M S (makeToolPrunablePredicate (Some (tools S)))
                      (charWindowOf w))) = 0"
    by (simp add: pruneLayer2_def Let_def)
  from applyHardClear_zero_suffix[OF assms(1) this True, of nxt' j]
  show ?thesis by (simp add: pruneLayer2_def Let_def)
next
  case False
  with ratio_suffix[OF assms(1), of j M w]
  have "\<not> of_nat (estimateMessagesChars E (map snd (drop j M))) / of_int (charWindowOf w) > hardClearRatio S"
    by simp
  then show ?thesis by (simp add: pruneLayer2_def Let_def)
qed

lemma dropMessages_single:
  assumes "0 < k" and "estimateMessagesChars E [snd m] > budget"
  shows "dropMessages E [m] k budget = ([m], [])"
proof -
  have c: "(case findAssistantCutoffIndex [snd m] k of None \<Rightarrow> 0 | Some i \<Rightarrow> i) = 0"
    using assms(1) by (simp add: findAssistantCutoffIndex_def)
  have s: "sliceWithinBudget E [m] budget = [m]"
    by (simp add: sliceWithinBudget_def Let_def)
  show ?thesis using assms(2) by (simp add: dropMessages_def Let_def c s)
qed

lemma dropMessages_fixed:
  assumes add: "\<forall>ms. estimateMessagesChars E ms = sum_list (map (estimateMessageChars E) ms)"
    and over: "estimateMessagesChars E (map snd M) > budget"
    and dm: "dropMessages E M k budget = (K, D)"
  shows "estimateMessagesChars E (map snd K) \<le> budget \<or> dropMessages E K k budget = (K, [])"
proof -
  note conv = estimate_charsOf[OF add]
  from dropMessages_char[OF dm] obtain c j where
    cchar: "if k = 0 then c = length M
       else if assistants (map snd M) < k then c = 0
       else c < length M \<and> role (snd (M ! c)) = Assistant \<and> assistants (map snd (drop c M)) = k"
    and j: "j \<le> length M" "K = drop j M"
    and cases: "if estimateMessagesChars E (map snd (drop c M)) \<le> budget
        then j \<le> c
           \<and> charsOf E (take (c - j) (drop j M)) \<le> budget - estimateMessagesChars E (map snd (drop c M))
           \<and> (j = 0 \<or> estimateMessageChars E (snd (M ! (j - 1))) + charsOf E (take (c - j) (drop j M))
                        > budget - estimateMessagesChars E (map snd (drop c M)))
        else (length M > 0 \<longrightarrow> j < length M)
           \<and> (length M - j \<ge> 2 \<longrightarrow> charsOf E (drop j M) \<le> budget)
           \<and> (j > 0 \<longrightarrow> charsOf E (drop (j - 1) M) > budget)"
    by blast
  show ?thesis
  proof (cases "estimateMessagesChars E (map snd (drop c M)) \<le> budget")
    case True
    with cases have jc: "j \<le> c"
      and f: "charsOf E (take (c - j) (drop j M)) \<le> budget - charsOf E (drop c M)"
      by (simp_all add: conv)
    have "drop (c - j) (drop j M) = drop c M" using jc by simp
    then have "take (c - j) (drop j M) @ drop c M = drop j M"
      using append_take_drop_id[of "c - j" "drop j M"] by (simp del: append_take_drop_id drop_drop)
    then have "charsOf E (drop j M) = charsOf E (take (c - j) (drop j M)) + charsOf E (drop c M)"
      by (metis charsOf_simps(3))
    with f True have "charsOf E (drop j M) \<le> budget" by (simp add: conv)
    then show ?thesis by (simp add: conv j(2))
  next
    case False
    have kpos: "0 < k"
    proof (rule ccontr)
      assume "\<not> 0 < k"
      with cchar have "c = length M" by simp
      moreover have "estimateMessagesChars E [] = 0" using add by simp
      ultimately show False using False by simp
    qed
    have "estimateMessagesChars E [] = 0" using add by simp
    with over have "M \<noteq> []" by auto
    with False cases have jl: "j < length M"
      and two: "length M - j \<ge> 2 \<longrightarrow> charsOf E (drop j M) \<le> budget"
      by simp_all
    show ?thesis
    proof (cases "length M - j \<ge> 2")
      case True
      with two show ?thesis by (simp add: conv j(2))
    next
      case one: False
      with jl have "length (drop j M) = 1" by simp
      then obtain m where m: "drop j M = [m]" by (cases "drop j M") auto
      show ?thesis
      proof (cases "estimateMessagesChars E (map snd K) \<le> budget")
        case True
        then show ?thesis by simp
      next
        case False
        then have "estimateMessagesChars E [snd m] > budget" by (simp add: j(2) m)
        from dropMessages_single[OF kpos this] show ?thesis by (simp add: j(2) m)
      qed
    qed
  qed
qed

lemma dropMessages_suffix:
  assumes "dropMessages E M k budget = (K, D)"
  shows "\<exists>j. K = drop j M"
  using dropMessages_char[OF assms] by blast

lemma prune_fields:
  "pr_trimmedToolResults (fst (pruneContextMessages E nxt M w raw))
     = fst (snd (pruneLayer1 E nxt M w (resolvePruningSettings raw)))"
  "pr_hardClearedToolResults (fst (pruneContextMessages E nxt M w raw))
     = fst (snd (pruneLayer2 E (pruneLayer1 E nxt M w (resolvePruningSettings raw)) w
                   (resolvePruningSettings raw)))"
  "pr_messages (fst (pruneContextMessages E nxt M w raw))
     = (let S = resolvePruningSettings raw;
            current = fst (pruneLayer2 E (pruneLayer1 E nxt M w S) w S)
        in if estimateMessagesChars E (map snd current) \<le> budgetCharsOf S w then current
           else fst (dropMessages E current (keepLastAssistants S) (budgetCharsOf S w)))"
  "pr_droppedMessages (fst (pruneContextMessages E nxt M w raw))
     = (let S = resolvePruningSettings raw;
            current = fst (pruneLayer2 E (pruneLayer1 E nxt M w S) w S)
        in if estimateMessagesChars E (map snd current) \<le> budgetCharsOf S w then []
           else snd (dropMessages E current (keepLastAssistants S) (budgetCharsOf S w)))"
  by (simp_all add: pruneContextMessages_def Let_def split: prod.splits)

lemma ex_onceText_length: "length ex_onceText = 82"
  by (simp add: ex_onceText_def)

lemma ex_once: "trimmedText \<lparr>maxChars = 10, headChars = 2, tailChars = 2\<rparr> ''0123456789abcde'' = ex_onceText"
  by (simp add: trimmedText_def ex_onceText_def decimal_eval ex_length del: list.size)

lemma ex_twice: "trimmedText \<lparr>maxChars = 10, headChars = 2, tailChars = 2\<rparr> ex_onceText = ex_twiceText"
proof -
  have t: "take 2 ex_onceText = ''01''" by (simp add: ex_onceText_def)
  have d: "drop 80 ex_onceText = ''.]''" by (simp add: ex_onceText_def)
  show ?thesis
    by (simp add: trimmedText_def ex_onceText_length t d decimal_eval) (simp add: ex_twiceText_def)
qed

lemma ex_differ: "ex_trimmedTwice \<noteq> ex_trimmedOnce"
  by (simp add: ex_trimmedTwice_def ex_trimmedOnce_def ex_twiceText_def ex_onceText_def)

lemma ex_settings2: "resolvePruningSettings (Some (ex_rawSettings 2)) =
   \<lparr>maxHistoryShare = 1 / 2, keepLastAssistants = 3, softTrimRatio = 0, hardClearRatio = 1 / 2,
    minPrunableToolChars = 50000,
    softTrim = \<lparr>maxChars = 10, headChars = 2, tailChars = 2\<rparr>,
    hardClear = \<lparr>enabled = True, placeholder = ''[Old tool result content cleared]''\<rparr>,
    tools = \<lparr>tm_allow = None, tm_deny = None\<rparr>\<rparr>"
  by (simp add: ex_settings)

lemma ex_block1:
  "softTrimToolResultBlock (ToolResult (Some ''t1'') (Some ''exec'') (Some ''0123456789abcde''))
     \<lparr>maxChars = 10, headChars = 2, tailChars = 2\<rparr>
     (makeToolPrunablePredicate (Some \<lparr>tm_allow = None, tm_deny = None\<rparr>))
   = (ToolResult (Some ''t1'') (Some ''exec'') (Some ex_onceText), True)"
  by (simp add: isToolResultProtected_def prunable_default Let_def ex_once)

lemma ex_block2:
  "softTrimToolResultBlock (ToolResult (Some ''t1'') (Some ''exec'') (Some ex_onceText))
     \<lparr>maxChars = 10, headChars = 2, tailChars = 2\<rparr>
     (makeToolPrunablePredicate (Some \<lparr>tm_allow = None, tm_deny = None\<rparr>))
   = (ToolResult (Some ''t1'') (Some ''exec'') (Some ex_twiceText), True)"
  by (simp add: isToolResultProtected_def prunable_default Let_def ex_twice ex_onceText_length)

lemma ex_chars_once:
  "estimateMessagesChars charEstimator [ex_trimmedOnce] = 82"
  "estimateMessagesChars charEstimator [ex_trimmedTwice] = 82"
  by (simp_all add: charEstimator_def messageChars_def ex_trimmedOnce_def ex_trimmedTwice_def
        ex_onceText_length) (simp add: ex_twiceText_def)

lemma ex_pass1:
  "pr_messages (fst (pruneContextMessages charEstimator 1 [(0, ex_toolResultMessage)] 1000
                       (Some (ex_rawSettings 2)))) = [(1, ex_trimmedOnce)]"
proof -
  let ?S = "resolvePruningSettings (Some (ex_rawSettings 2))"
  have st: "applySoftTrim 1 [(0, ex_toolResultMessage)] ?S (makeToolPrunablePredicate (Some (tools ?S)))
              = ([(1, ex_trimmedOnce)], 1, 2)"
    unfolding ex_settings2
    by (simp add: ex_toolResultMessage_def ex_block1 cloneMessage_def ex_trimmedOnce_def
          del: softTrimToolResultBlock.simps)
  have l1: "pruneLayer1 charEstimator 1 [(0, ex_toolResultMessage)] 1000 ?S = ([(1, ex_trimmedOnce)], 1, 2)"
    unfolding pruneLayer1_def Let_def st by (simp add: ex_chars ex_charWindow ex_settings2)
  have l2: "pruneLayer2 charEstimator ([(1, ex_trimmedOnce)], 1, 2) 1000 ?S = ([(1, ex_trimmedOnce)], 0, 2)"
    by (simp add: pruneLayer2_def Let_def ex_chars_once ex_charWindow ex_settings2)
  have b: "budgetCharsOf ?S 1000 = 2000"
    by (simp add: budgetCharsOf_def ex_charWindow ex_settings2 toDouble_values)
  show ?thesis
    unfolding pruneContextMessages_def Let_def l1 l2 b by (simp add: ex_chars_once)
qed

lemma ex_pass2:
  "pr_messages (fst (pruneContextMessages charEstimator 2 [(1, ex_trimmedOnce)] 1000
                       (Some (ex_rawSettings 2)))) = [(2, ex_trimmedTwice)]"
proof -
  let ?S = "resolvePruningSettings (Some (ex_rawSettings 2))"
  have st: "applySoftTrim 2 [(1, ex_trimmedOnce)] ?S (makeToolPrunablePredicate (Some (tools ?S)))
              = ([(2, ex_trimmedTwice)], 1, 3)"
    unfolding ex_settings2
    by (simp add: ex_trimmedOnce_def ex_block2 cloneMessage_def ex_trimmedTwice_def
          del: softTrimToolResultBlock.simps)
  have l1: "pruneLayer1 charEstimator 2 [(1, ex_trimmedOnce)] 1000 ?S = ([(2, ex_trimmedTwice)], 1, 3)"
    unfolding pruneLayer1_def Let_def st by (simp add: ex_chars_once ex_charWindow ex_settings2)
  have l2: "pruneLayer2 charEstimator ([(2, ex_trimmedTwice)], 1, 3) 1000 ?S = ([(2, ex_trimmedTwice)], 0, 3)"
    by (simp add: pruneLayer2_def Let_def ex_chars_once ex_charWindow ex_settings2)
  have b: "budgetCharsOf ?S 1000 = 2000"
    by (simp add: budgetCharsOf_def ex_charWindow ex_settings2 toDouble_values)
  show ?thesis
    unfolding pruneContextMessages_def Let_def l1 l2 b by (simp add: ex_chars_once)
qed






section \<open>Compaction: the error path\<close>

text \<open>
  Claim C8, as the code has it. When the first pass over the messages fails, the compactor
  leaves out every message whose token estimate times the safety margin 1.2 exceeds half the
  context window, and makes one more pass over the messages that remain, if any. When that
  pass succeeds, the result is its summary followed, after an empty line, by one note
  \<open>[Large <role> (~<N>K tokens) omitted]\<close> per message left out, \<open>N\<close> the estimate in
  thousands, rounded. When it fails, or no message remains, the result is
  \<open>Context contained <N> messages. Summary unavailable due to size limits.\<close> with \<open>N\<close> the
  number of messages.
\<close>

theorem summarizeWithFallback_error_path:
  assumes "s_messages params \<noteq> []"
    and "summarizeChunks E summarize n params = (Inl err, n1)"
  shows "summarizeWithFallback E summarize n params =
     (let oversized = (\<lambda>m. estimateMessageTokens E m * (12 / 10) > s_contextWindow params * (1 / 2));
          small = filter (\<lambda>m. \<not> oversized m) (s_messages params);
          notes = map (\<lambda>m. ''[Large '' @ roleName (role m) @ '' (~''
                              @ decimal_int \<lfloor>estimateMessageTokens E m / 1000 + 1 / 2\<rfloor>
                              @ ''K tokens) omitted]'')
                    (filter oversized (s_messages params));
          unavailable = ''Context contained '' @ decimal (length (s_messages params))
                          @ '' messages. Summary unavailable due to size limits.''
      in if small = [] then (unavailable, n1)
         else (case summarizeChunks E summarize n1 (params\<lparr>s_messages := small\<rparr>) of
                 (Inr partial, n2) \<Rightarrow>
                   (partial @ (if notes = [] then [] else [CHR 0x0A, CHR 0x0A] @ js_join [CHR 0x0A] notes), n2)
               | (Inl err2, n2) \<Rightarrow> (unavailable, n2)))"
proof -
  have o: "isOversizedForSummary E m (s_contextWindow params)
           = (estimateMessageTokens E m * (12 / 10) > s_contextWindow params * (1 / 2))" for m
    by (simp add: isOversizedForSummary_def SAFETY_MARGIN_def Let_def)
  have nt: "oversizedNote E = (\<lambda>m. ''[Large '' @ roleName (role m) @ '' (~''
                              @ decimal_int \<lfloor>estimateMessageTokens E m / 1000 + 1 / 2\<rfloor>
                              @ ''K tokens) omitted]'')"
    by (rule ext) (simp add: oversizedNote_def Let_def)
  show ?thesis
    using assms
    by (simp add: summarizeWithFallback_def Let_def o nt summaryUnavailable_def
          split: prod.splits sum.splits)
qed

lemma ex_tokens:
  "estimateMessageTokens charEstimator ex_bigMessage = 45"
  "estimateMessageTokens charEstimator ex_smallMessage = 1"
  by (simp_all add: charEstimator_def messageChars_def ex_bigMessage_def ex_smallMessage_def)

lemma ex_chunks_all:
  "chunkMessagesByMaxTokens charEstimator [ex_bigMessage, ex_smallMessage] 1000
     = [[ex_bigMessage, ex_smallMessage]]"
  by (simp add: chunkMessagesByMaxTokens_def ex_tokens Let_def)

lemma ex_chunks_small:
  "chunkMessagesByMaxTokens charEstimator [ex_smallMessage] 1000 = [[ex_smallMessage]]"
  by (simp add: chunkMessagesByMaxTokens_def ex_tokens Let_def)

lemma ex_first_pass:
  "summarizeChunks charEstimator ex_summarize 0 ex_summaryParams = (Inl ''request too large'', 1)"
  by (simp add: summarizeChunks_def ex_summaryParams_def ex_chunks_all generateSummary_def
        ex_summarize_def Let_def)

lemma ex_second_pass:
  "summarizeChunks charEstimator ex_summarize (Suc 0) (ex_summaryParams\<lparr>s_messages := [ex_smallMessage]\<rparr>)
     = (Inr ''SUMMARY'', 2)"
  by (simp add: summarizeChunks_def ex_summaryParams_def ex_chunks_small generateSummary_def
        ex_summarize_def Let_def)

lemma ex_oversized:
  "isOversizedForSummary charEstimator ex_bigMessage 100"
  "\<not> isOversizedForSummary charEstimator ex_smallMessage 100"
  by (simp_all add: isOversizedForSummary_def SAFETY_MARGIN_def ex_tokens Let_def)

lemma ex_big_role: "role ex_bigMessage = User"
  by (simp add: ex_bigMessage_def)

lemma ex_round: "\<lfloor>(45::rat) / 1000 + 1 / 2\<rfloor> = 0"
  by (rule floor_unique) simp_all

lemma ex_note: "oversizedNote charEstimator ex_bigMessage = ''[Large user (~0K tokens) omitted]''"
  by (simp add: oversizedNote_def ex_tokens Let_def roleName_def ex_big_role ex_round decimal_int_def
        decimal.simps digit_char_def)

lemma ex_fallback:
  "summarizeWithFallback charEstimator ex_summarize 0 ex_summaryParams
     = (''SUMMARY'' @ [CHR 0x0A, CHR 0x0A] @ ''[Large user (~0K tokens) omitted]'', 2)"
proof -
  have p: "s_messages ex_summaryParams = [ex_bigMessage, ex_smallMessage]"
      "s_contextWindow ex_summaryParams = 100"
    by (simp_all add: ex_summaryParams_def)
  show ?thesis
    unfolding summarizeWithFallback_def ex_first_pass p
    by (simp add: ex_oversized ex_second_pass ex_note Let_def)
qed

theorem summarizeWithFallback_error_path_witness:
  "s_messages ex_summaryParams \<noteq> []
   \<and> summarizeChunks charEstimator ex_summarize 0 ex_summaryParams = (Inl ''request too large'', 1)
   \<and> summarizeWithFallback charEstimator ex_summarize 0 ex_summaryParams
       = (''SUMMARY'' @ [CHR 0x0A, CHR 0x0A] @ ''[Large user (~0K tokens) omitted]'', 2)"
proof -
  have p: "s_messages ex_summaryParams = [ex_bigMessage, ex_smallMessage]"
      "s_contextWindow ex_summaryParams = 100"
    by (simp_all add: ex_summaryParams_def)
  have h1: "s_messages ex_summaryParams \<noteq> []" by (simp add: p)
  note T = summarizeWithFallback_error_path[OF h1 ex_first_pass]
  have "summarizeWithFallback charEstimator ex_summarize 0 ex_summaryParams
       = (''SUMMARY'' @ [CHR 0x0A, CHR 0x0A] @ ''[Large user (~0K tokens) omitted]'', 2)"
    unfolding T p
    by (simp add: ex_tokens ex_second_pass ex_big_role ex_round roleName_def decimal_int_def
          decimal.simps digit_char_def Let_def)
  with h1 ex_first_pass show ?thesis by simp
qed

text \<open>
  Claim C8 as stated fails: a message of 45 tokens does not exceed 50% of a context
  window of 100 tokens, yet after the summarizer failed the retry leaves it out and notes it,
  since 45 times the safety margin 1.2 exceeds 50.
\<close>

theorem summarizeWithFallback_counterexample:
  "\<not> estimateMessageTokens charEstimator ex_bigMessage > s_contextWindow ex_summaryParams * (50 / 100)
   \<and> s_messages ex_summaryParams = [ex_bigMessage, ex_smallMessage]
   \<and> summarizeChunks charEstimator ex_summarize 0 ex_summaryParams = (Inl ''request too large'', 1)
   \<and> summarizeWithFallback charEstimator ex_summarize 0 ex_summaryParams
       = (''SUMMARY'' @ [CHR 0x0A, CHR 0x0A] @ ''[Large user (~0K tokens) omitted]'', 2)"
  using ex_fallback ex_first_pass by (simp add: ex_tokens ex_summaryParams_def)

section \<open>The tool phase of a turn\<close>

lemma findTool_None: "(findTool tls n = None) = (\<not> (\<exists>tool \<in> set tls. tool_name tool = n))"
  by (auto simp: findTool_def find_None_iff)

lemma toolResultText_Inr:
  "\<not> nullishThrow tls call t \<Longrightarrow> toolResultText tls call t = Inr (resultOf tls call t)"
  by (auto simp: nullishThrow_def resultOf_def toolResultText_def split: option.splits sum.splits Thrown.splits)

lemma toolEndEvent_eq:
  "[ToolExecutionStart (tc_id call) (tc_name call) (tc_input call),
    toolEndEvent tls call (resultOf tls call t)] = executionEvents tls call t"
  by (simp add: executionEvents_def toolEndEvent_def findTool_None shownResult_def)

lemma executedCount_le: "executedCount env t calls \<le> length calls"
  by (induction calls arbitrary: t) auto

lemma executedCount_pos: "calls \<noteq> [] \<Longrightarrow> 0 < executedCount env t calls"
  by (cases calls) auto

lemma executedCount_first:
  "Suc i < executedCount env t calls \<Longrightarrow> env_steering env (t + 2 * i + 1) = []"
proof (induction calls arbitrary: t i)
  case Nil
  then show ?case by simp
next
  case (Cons call remaining)
  show ?case
  proof (cases i)
    case 0
    with Cons.prems show ?thesis by (simp split: if_splits)
  next
    case (Suc j)
    with Cons.prems have "Suc j < executedCount env (t + 2) remaining"
      by (simp split: if_splits)
    from Cons.IH[OF this] Suc show ?thesis by simp
  qed
qed

lemma steeringAfter_empty:
  "steeringAfter env t (executedCount env t calls) = [] \<Longrightarrow> executedCount env t calls = length calls"
proof (induction calls arbitrary: t)
  case Nil
  then show ?case by simp
next
  case (Cons call remaining)
  show ?case
  proof (cases "env_steering env (t + 1) = []")
    case False
    with Cons.prems show ?thesis by (simp add: steeringAfter_def)
  next
    case True
    show ?thesis
    proof (cases "remaining = []")
      case e: True
      then show ?thesis using True by simp
    next
      case ne: False
      have pos: "0 < executedCount env (t + 2) remaining" by (rule executedCount_pos[OF ne])
      with Cons.prems True have "steeringAfter env (t + 2) (executedCount env (t + 2) remaining) = []"
        by (simp add: steeringAfter_def)
      from Cons.IH[OF this] True show ?thesis by simp
    qed
  qed
qed

lemma executeToolCalls_shape:
  assumes "\<forall>i < executedCount env (tp_tick ph) calls. \<not> nullishThrow tls (calls ! i) (tp_tick ph + 2 * i)"
  shows "executeToolCalls tls env calls ph =
     (let n = executedCount env (tp_tick ph) calls;
          steering = steeringAfter env (tp_tick ph) n
      in ph\<lparr>tp_tick := tp_tick ph + 2 * n,
            tp_events := tp_events ph
               @ concat (map (\<lambda>i. executionEvents tls (calls ! i) (tp_tick ph + 2 * i)) [0..<n])
               @ (if steering \<noteq> [] then skippedEvents (drop n calls) @ [Steering (length steering)]
                  else []),
            tp_toolResults := tp_toolResults ph
               @ map (\<lambda>i. realResult tls (calls ! i) (tp_tick ph + 2 * i)) [0..<n]
               @ map skipToolCall (drop n calls),
            tp_steeringMessages := (if steering \<noteq> [] then Some steering else tp_steeringMessages ph),
            tp_totalToolCalls := tp_totalToolCalls ph + n\<rparr>)"
  using assms
proof (induction calls arbitrary: ph)
  case Nil
  show ?case by (simp add: steeringAfter_def)
next
  case (Cons call remaining)
  have "\<not> nullishThrow tls call (tp_tick ph)"
    using Cons.prems[rule_format, of 0] by (simp split: if_splits)
  then have r: "toolResultText tls call (tp_tick ph) = Inr (resultOf tls call (tp_tick ph))"
    by (rule toolResultText_Inr)
  show ?case
  proof (cases "env_steering env (tp_tick ph + 1) = []")
    case False
    then show ?thesis
      by (simp add: r Let_def steeringAfter_def toolEndEvent_eq realResult_def skippedEvents_def)
  next
    case True
    let ?ph1 = "ph\<lparr>tp_tick := tp_tick ph + 2,
                    tp_events := tp_events ph @ executionEvents tls call (tp_tick ph),
                    tp_toolResults := tp_toolResults ph @ [realResult tls call (tp_tick ph)],
                    tp_totalToolCalls := tp_totalToolCalls ph + 1\<rparr>"
    have step: "executeToolCalls tls env (call # remaining) ph = executeToolCalls tls env remaining ?ph1"
      using True by (simp add: r Let_def toolEndEvent_eq[symmetric] realResult_def)
    have cnt: "executedCount env (tp_tick ph) (call # remaining)
                 = Suc (executedCount env (tp_tick ph + 2) remaining)"
      using True by simp
    have st: "steeringAfter env (tp_tick ph) (Suc m) = (if m = 0 then [] else steeringAfter env (tp_tick ph + 2) m)" for m
      using True by (cases m) (simp_all add: steeringAfter_def)
    have rest: "\<forall>i < executedCount env (tp_tick ?ph1) remaining.
                  \<not> nullishThrow tls (remaining ! i) (tp_tick ?ph1 + 2 * i)"
    proof (intro allI impI)
      fix i assume "i < executedCount env (tp_tick ?ph1) remaining"
      then have "Suc i < executedCount env (tp_tick ph) (call # remaining)" using cnt by simp
      from Cons.prems[rule_format, OF this] show "\<not> nullishThrow tls (remaining ! i) (tp_tick ?ph1 + 2 * i)"
        by simp
    qed
    show ?thesis
    proof (cases "remaining = []")
      case e: True
      show ?thesis using True e by (simp add: r Let_def steeringAfter_def toolEndEvent_eq realResult_def)
    next
      case ne: False
      have pos: "0 < executedCount env (Suc (Suc (tp_tick ph))) remaining"
        using executedCount_pos[OF ne, of env "tp_tick ph + 2"] by simp
      show ?thesis
        unfolding step Cons.IH[of ?ph1, OF rest] cnt
        using pos st by (simp add: Let_def map_upt_Suc o_def del: upt_Suc)
    qed
  qed
qed

lemma finishTurn_tools:
  assumes "toolCalls buf \<noteq> []"
    and "\<forall>i < executedCount env (ls_tick s) (toolCalls buf).
           \<not> nullishThrow (toolsForRun p) (toolCalls buf ! i) (ls_tick s + 2 * i)"
  shows "finishTurn p env s buf =
     (let calls = toolCalls buf; t = ls_tick s;
          n = executedCount env t calls;
          steering = steeringAfter env t n;
          assistantMsg = \<lparr>role = Assistant, content = Blocks (assistantContent buf), timestamp = env_now env t\<rparr>;
          resultMsg = \<lparr>role = User,
                       content = Blocks (map (\<lambda>i. realResult (toolsForRun p) (calls ! i) (t + 2 * i)) [0..<n]
                                         @ map skipToolCall (drop n calls)),
                       timestamp = env_now env (t + 2 * n)\<rparr>
      in (None,
          s\<lparr>ls_store := appendMessage p (sessionKey p) resultMsg (env_now env (t + 2 * n))
                          (appendMessage p (sessionKey p) assistantMsg (env_now env t) (ls_store s)),
            ls_currentMessages := ls_currentMessages s @ [assistantMsg, resultMsg],
            ls_hasMoreToolCalls := True,
            ls_totalToolCalls := ls_totalToolCalls s + n,
            ls_events := ls_events s
               @ (if concat (turnTextParts buf) \<noteq> []
                  then [MessageEnd assistantMsg (concat (turnTextParts buf))] else [])
               @ concat (map (\<lambda>i. executionEvents (toolsForRun p) (calls ! i) (t + 2 * i)) [0..<n])
               @ (if steering \<noteq> [] then skippedEvents (drop n calls) @ [Steering (length steering)]
                  else [])
               @ [TurnEnd (ls_turns s)],
            ls_pendingMessages := (if steering \<noteq> [] then steering else env_steering env (t + 2 * n)),
            ls_tick := (if steering \<noteq> [] then t + 2 * n else t + 2 * n + 1)\<rparr>))"
proof -
  let ?ph = "\<lparr>tp_tick = ls_tick s, tp_events = [], tp_toolResults = [],
              tp_steeringMessages = None, tp_totalToolCalls = 0, tp_thrown = None\<rparr>"
  have "\<forall>i < executedCount env (tp_tick ?ph) (toolCalls buf).
           \<not> nullishThrow (toolsForRun p) (toolCalls buf ! i) (tp_tick ?ph + 2 * i)"
    using assms(2) by simp
  note sh = executeToolCalls_shape[OF this]
  show ?thesis
    using assms(1) by (simp add: finishTurn_def sh Let_def)
qed

lemma agentLoop_enter:
  assumes "ls_hasMoreToolCalls s \<or> ls_pendingMessages s \<noteq> []" "ls_turns s < maxTurns p"
    "\<not> env_aborted env (ls_tick s)"
  shows "agentLoop E p env s =
     (case turnBody E p env (s\<lparr>ls_tick := ls_tick s + 1\<rparr>) of
        (Some thrown, s') \<Rightarrow> (Some thrown, s')
      | (None, s') \<Rightarrow> agentLoop E p env s')"
  using assms by (subst agentLoop.simps) auto

lemma consumeEvents_calls:
  "\<exists>k \<le> length evs.
     toolCalls (snd (snd (consumeEvents env evs (t, out, buf)))) = toolCalls buf @ emittedCalls (take k evs)"
proof (induction evs arbitrary: t out buf)
  case Nil
  show ?case by simp
next
  case (Cons ev rest)
  show ?case
  proof (cases "env_aborted env t")
    case True
    then have "toolCalls (snd (snd (consumeEvents env (ev # rest) (t, out, buf))))
                 = toolCalls buf @ emittedCalls (take 0 (ev # rest))" by simp
    then show ?thesis by blast
  next
    case False
    obtain t1 out1 buf1 where
      step: "consumeEvents env (ev # rest) (t, out, buf) = consumeEvents env rest (t1, out1, buf1)"
      and calls: "toolCalls buf1 @ emittedCalls (take k rest) = toolCalls buf @ emittedCalls (take (Suc k) (ev # rest))" for k
      using False by (cases ev) auto
    from Cons.IH[of t1 out1 buf1] obtain k where
      "k \<le> length rest"
      "toolCalls (snd (snd (consumeEvents env rest (t1, out1, buf1)))) = toolCalls buf1 @ emittedCalls (take k rest)"
      by blast
    then have "Suc k \<le> length (ev # rest)
       \<and> toolCalls (snd (snd (consumeEvents env (ev # rest) (t, out, buf))))
            = toolCalls buf @ emittedCalls (take (Suc k) (ev # rest))"
      using step calls by simp
    then show ?thesis by blast
  qed
qed



section \<open>Errors of tools\<close>

lemma llmAttempt_ok:
  assumes "\<forall>t. \<not> env_aborted env t" "\<forall>t sp ms. llm_error (env_stream env t sp ms) = None"
  shows "\<exists>t1 out1 buf. llmAttempt env sp ms t out = (Inr (), t1, out1, buf)"
  using assms by (simp add: llmAttempt_def Let_def split: prod.splits)

lemma neverNullish_call: "neverNullish tls \<Longrightarrow> \<not> nullishThrow tls call t"
  by (auto simp: neverNullish_def nullishThrow_def findTool_def split: option.splits
           dest!: find_Some_iff[THEN iffD1] intro: nth_mem)

lemma executeToolCalls_thrown:
  "neverNullish tls \<Longrightarrow> tp_thrown (executeToolCalls tls env calls ph) = tp_thrown ph"
proof (induction calls arbitrary: ph)
  case Nil
  show ?case by simp
next
  case (Cons call remaining)
  have r: "toolResultText tls call (tp_tick ph) = Inr (resultOf tls call (tp_tick ph))"
    by (rule toolResultText_Inr[OF neverNullish_call[OF Cons.prems]])
  show ?case
    using Cons.IH[OF Cons.prems] by (simp add: r Let_def)
qed

lemma finishTurn_ok:
  "neverNullish (toolsForRun p) \<Longrightarrow> fst (finishTurn p env s buf) = None"
  by (simp add: finishTurn_def Let_def executeToolCalls_thrown)

lemma turnBody_ok:
  assumes "\<forall>t. \<not> env_aborted env t" "\<forall>t sp ms. llm_error (env_stream env t sp ms) = None"
    and "neverNullish (toolsForRun p)"
  shows "fst (turnBody E p env s) = None"
proof -
  let ?s1 = "beginTurn p env s"
  from llmAttempt_ok[OF assms(1,2), of "systemPrompt p" "messagesForModel E p ?s1" "ls_tick ?s1" "ls_events ?s1"]
  obtain t1 out1 buf where
    "llmAttempt env (systemPrompt p) (messagesForModel E p ?s1) (ls_tick ?s1) (ls_events ?s1)
       = (Inr (), t1, out1, buf)" by blast
  then have "llmCallWithRetry env (systemPrompt p) (messagesForModel E p ?s1) (ls_tick ?s1) (ls_events ?s1)
       = (Inr (), t1, out1, buf)"
    by (simp add: llmCallWithRetry_def numeral_3_eq_3)
  then show ?thesis by (simp add: turnBody_def Let_def finishTurn_ok[OF assms(3)])
qed

lemma agentLoop_ok:
  assumes "\<forall>t. \<not> env_aborted env t" "\<forall>t sp ms. llm_error (env_stream env t sp ms) = None"
    and "neverNullish (toolsForRun p)"
  shows "fst (agentLoop E p env s) = None"
  using assms
proof (induction E p env s rule: agentLoop.induct)
  case (1 E p env s)
  note tb = turnBody_ok[OF "1.prems", of E "s\<lparr>ls_tick := ls_tick s + 1\<rparr>"]
  show ?case
  proof (cases "ls_hasMoreToolCalls s \<or> length (ls_pendingMessages s) > 0")
    case True
    show ?thesis
    proof (cases "ls_turns s \<ge> maxTurns p \<or> env_aborted env (ls_tick s)")
      case True
      then show ?thesis using \<open>ls_hasMoreToolCalls s \<or> length (ls_pendingMessages s) > 0\<close>
        by (subst agentLoop.simps) auto
    next
      case False
      obtain r s' where tbr: "turnBody E p env (s\<lparr>ls_tick := ls_tick s + 1\<rparr>) = (r, s')"
        by (cases "turnBody E p env (s\<lparr>ls_tick := ls_tick s + 1\<rparr>)")
      with tb have r: "r = None" by simp
      from False True have a: "\<not> maxTurns p \<le> ls_turns s" "\<not> env_aborted env (ls_tick s)" by auto
      have "fst (agentLoop E p env s') = None"
        using "1.IH"(1)[OF True a(1) a(2) tbr[symmetric] r "1.prems"] .
      then show ?thesis using True a tbr r
        by (subst agentLoop.simps) simp
    qed
  next
    case False
    show ?thesis
    proof (cases "env_followUp env")
      case None
      then show ?thesis using False by (subst agentLoop.simps) simp
    next
      case (Some g)
      show ?thesis
      proof (cases "length (g (ls_tick s)) > 0")
        case True
        have "fst (agentLoop E p env (s\<lparr>ls_pendingMessages := g (ls_tick s), ls_hasMoreToolCalls := True,
                           ls_tick := ls_tick s + 1\<rparr>)) = None"
          using "1.IH"(2)[OF False Some refl True "1.prems"] .
        then show ?thesis using False Some True by (subst agentLoop.simps) (simp add: Let_def)
      next
        case False
        then show ?thesis using \<open>\<not> (ls_hasMoreToolCalls s \<or> length (ls_pendingMessages s) > 0)\<close> Some
          by (subst agentLoop.simps) (simp add: Let_def)
      qed
    qed
  qed
qed

lemma startPhase_events:
  assumes "\<forall>i < executedCount env t calls. \<not> nullishThrow tls (calls ! i) (t + 2 * i)"
  shows "tp_events (executeToolCalls tls env calls (startPhase t)) =
     concat (map (\<lambda>i. executionEvents tls (calls ! i) (t + 2 * i)) [0..<executedCount env t calls])
     @ (if steeringAfter env t (executedCount env t calls) \<noteq> []
        then skippedEvents (drop (executedCount env t calls) calls)
               @ [Steering (length (steeringAfter env t (executedCount env t calls)))]
        else [])"
proof -
  have "\<forall>i < executedCount env (tp_tick (startPhase t)) calls.
          \<not> nullishThrow tls (calls ! i) (tp_tick (startPhase t) + 2 * i)"
    using assms by (simp add: startPhase_def)
  from executeToolCalls_shape[OF this] show ?thesis by (simp add: startPhase_def Let_def)
qed

lemma startPhase_results:
  assumes "\<forall>i < executedCount env t calls. \<not> nullishThrow tls (calls ! i) (t + 2 * i)"
  shows "tp_toolResults (executeToolCalls tls env calls (startPhase t)) =
     map (\<lambda>i. realResult tls (calls ! i) (t + 2 * i)) [0..<executedCount env t calls]
     @ map skipToolCall (drop (executedCount env t calls) calls)"
proof -
  have "\<forall>i < executedCount env (tp_tick (startPhase t)) calls.
          \<not> nullishThrow tls (calls ! i) (tp_tick (startPhase t) + 2 * i)"
    using assms by (simp add: startPhase_def)
  from executeToolCalls_shape[OF this] show ?thesis by (simp add: startPhase_def Let_def)
qed

text \<open>
  What holds of the tool phase started at the counter \<open>t\<close> when no tool of the run throws
  \<open>null\<close> or \<open>undefined\<close>: every \<open>tool_execution_end\<close> event carries \<open>isError = true\<close> exactly
  when the tool list has no tool of the name in the event; every call run has such an event
  and its tool result, in the position of the call; when the tool is found and its
  \<open>execute\<close> throws an error with the message \<open>message\<close>, the content of the tool result is
  \<open>Execution error: \<close> followed by the message, and the event has \<open>isError = false\<close>; and
  when the run is never aborted and the provider never fails, the loop ends without an
  error.
\<close>

lemma toolErrors_reported:
  assumes nn: "neverNullish tls"
  shows "(ToolExecutionEnd cid cname r e \<in> set (tp_events (executeToolCalls tls env calls (startPhase t)))
      \<longrightarrow> e = (\<not> (\<exists>tool \<in> set tls. tool_name tool = cname)))
   \<and> (i < executedCount env t calls \<longrightarrow>
        ToolExecutionEnd (tc_id (calls ! i)) (tc_name (calls ! i))
            (shownResult (resultOf tls (calls ! i) (t + 2 * i)))
            (\<not> (\<exists>tool \<in> set tls. tool_name tool = tc_name (calls ! i)))
          \<in> set (tp_events (executeToolCalls tls env calls (startPhase t)))
        \<and> tp_toolResults (executeToolCalls tls env calls (startPhase t)) ! i
            = ToolResult (Some (tc_id (calls ! i))) (Some (tc_name (calls ! i)))
                (Some (resultOf tls (calls ! i) (t + 2 * i))))
   \<and> (findTool tls (tc_name (calls ! i)) = Some tool
        \<and> tool_execute tool (t + 2 * i) (tc_input (calls ! i)) = Inl (ThrownWithMessage message) \<longrightarrow>
        resultOf tls (calls ! i) (t + 2 * i) = ''Execution error: '' @ message
        \<and> (\<exists>tool \<in> set tls. tool_name tool = tc_name (calls ! i)))
   \<and> ((\<forall>k. \<not> env_aborted env k) \<and> (\<forall>k sp ms. llm_error (env_stream env k sp ms) = None)
        \<and> toolsForRun p = tls \<longrightarrow>
        fst (runAgentLoop E p env store msgs summaryMsg) = None)"
proof -
  let ?n = "executedCount env t calls"
  let ?ph = "executeToolCalls tls env calls (startPhase t)"
  have nt: "\<forall>i < ?n. \<not> nullishThrow tls (calls ! i) (t + 2 * i)"
    using neverNullish_call[OF nn] by simp
  note ev = startPhase_events[OF nt]
  note rs = startPhase_results[OF nt]
  have a: "e = (\<not> (\<exists>tool \<in> set tls. tool_name tool = cname))"
    if "ToolExecutionEnd cid cname r e \<in> set (tp_events ?ph)"
    using that by (auto simp: ev executionEvents_def skippedEvents_def split: if_splits)
  have b1: "ToolExecutionEnd (tc_id (calls ! i)) (tc_name (calls ! i))
            (shownResult (resultOf tls (calls ! i) (t + 2 * i)))
            (\<not> (\<exists>tool \<in> set tls. tool_name tool = tc_name (calls ! i))) \<in> set (tp_events ?ph)"
    if "i < ?n"
  proof -
    have "ToolExecutionEnd (tc_id (calls ! i)) (tc_name (calls ! i))
            (shownResult (resultOf tls (calls ! i) (t + 2 * i)))
            (\<not> (\<exists>tool \<in> set tls. tool_name tool = tc_name (calls ! i)))
          \<in> set (executionEvents tls (calls ! i) (t + 2 * i))"
      by (simp add: executionEvents_def)
    with that show ?thesis unfolding ev by auto
  qed
  have b2: "tp_toolResults ?ph ! i = ToolResult (Some (tc_id (calls ! i))) (Some (tc_name (calls ! i)))
                (Some (resultOf tls (calls ! i) (t + 2 * i)))"
    if "i < ?n"
    using that by (simp add: rs nth_append realResult_def)
  have c: "resultOf tls (calls ! i) (t + 2 * i) = ''Execution error: '' @ message
           \<and> (\<exists>tool \<in> set tls. tool_name tool = tc_name (calls ! i))"
    if "findTool tls (tc_name (calls ! i)) = Some tool"
       "tool_execute tool (t + 2 * i) (tc_input (calls ! i)) = Inl (ThrownWithMessage message)"
  proof -
    from that(1) have "findTool tls (tc_name (calls ! i)) \<noteq> None" by simp
    then have "\<exists>tool \<in> set tls. tool_name tool = tc_name (calls ! i)"
      unfolding findTool_None by simp
    then show ?thesis using that by (simp add: resultOf_def toolResultText_def)
  qed
  have d: "fst (runAgentLoop E p env store msgs summaryMsg) = None"
    if "\<forall>k. \<not> env_aborted env k" "\<forall>k sp ms. llm_error (env_stream env k sp ms) = None"
       "toolsForRun p = tls"
  proof -
    have "neverNullish (toolsForRun p)" using nn that(3) by simp
    from agentLoop_ok[OF that(1,2) this, of E "initialLoopState env store msgs summaryMsg"]
    show ?thesis
      by (cases "agentLoop E p env (initialLoopState env store msgs summaryMsg)")
         (auto simp: runAgentLoop_def split: option.splits)
  qed
  show ?thesis
    using a b1 b2 c d by blast
qed

lemma ex_throw_loop:
  assumes "toolsForRun p = ex_throwTools" "0 < maxTurns p"
  shows "agentLoop E p ex_throwEnv (initialLoopState ex_throwEnv store msgs None) =
     (Some (readOfNullish ''undefined''),
      \<lparr>ls_tick = 6, ls_events = [TurnStart 1, ToolExecutionStart ''c1'' ''fetch'' []],
       ls_store = appendMessage p (sessionKey p) ex_throwAssistant 5 store,
       ls_currentMessages = msgs @ [ex_throwAssistant],
       ls_compactionSummary = None, ls_turns = 1, ls_totalToolCalls = 0, ls_finalText = [],
       ls_overflowCompactionAttempted = False, ls_pendingMessages = [],
       ls_hasMoreToolCalls = True\<rparr>)"
proof -
  let ?s0 = "initialLoopState ex_throwEnv store msgs None"
  have llm: "llmCallWithRetry ex_throwEnv sp ms t out
     = (Inr (), t + 3, out,
        \<lparr>assistantContent = [ToolUse (Some ''c1'') (Some ''fetch'') []],
         toolCalls = [\<lparr>tc_id = ''c1'', tc_name = ''fetch'', tc_input = []\<rparr>], turnTextParts = []\<rparr>)"
    for sp ms t out
    by (simp add: llmCallWithRetry_def numeral_3_eq_3 llmAttempt_def ex_throwEnv_def Let_def)
  have start: "?s0 =
      \<lparr>ls_tick = 1, ls_events = [], ls_store = store, ls_currentMessages = msgs,
       ls_compactionSummary = None, ls_turns = 0, ls_totalToolCalls = 0, ls_finalText = [],
       ls_overflowCompactionAttempted = False, ls_pendingMessages = [],
       ls_hasMoreToolCalls = True\<rparr>"
    by (simp add: initialLoopState_def ex_throwEnv_def)
  have env: "env_aborted ex_throwEnv = (\<lambda>t. False)" "env_now ex_throwEnv = (\<lambda>t. t)"
    by (simp_all add: ex_throwEnv_def)
  have trt: "toolResultText ex_throwTools \<lparr>tc_id = ''c1'', tc_name = ''fetch'', tc_input = []\<rparr> t
               = Inl (readOfNullish ''undefined'')" for t
    by (simp add: toolResultText_def findTool_def ex_throwTools_def)
  have body: "turnBody E p ex_throwEnv (?s0\<lparr>ls_tick := ls_tick ?s0 + 1\<rparr>)
     = (Some (readOfNullish ''undefined''),
        \<lparr>ls_tick = 6, ls_events = [TurnStart 1, ToolExecutionStart ''c1'' ''fetch'' []],
         ls_store = appendMessage p (sessionKey p) ex_throwAssistant 5 store,
         ls_currentMessages = msgs @ [ex_throwAssistant],
         ls_compactionSummary = None, ls_turns = 1, ls_totalToolCalls = 0, ls_finalText = [],
         ls_overflowCompactionAttempted = False, ls_pendingMessages = [],
         ls_hasMoreToolCalls = True\<rparr>)"
    unfolding start
    by (simp add: turnBody_def beginTurn_def llm finishTurn_def Let_def assms(1) env trt
          ex_throwAssistant_def)
  have c: "ls_hasMoreToolCalls ?s0 \<or> ls_pendingMessages ?s0 \<noteq> []"
    "ls_turns ?s0 < maxTurns p" "\<not> env_aborted ex_throwEnv (ls_tick ?s0)"
    using assms(2) by (simp_all add: start env)
  show ?thesis unfolding agentLoop_enter[OF c] body by simp
qed

text \<open>
  Claim C10, at a tool that rejects with \<open>undefined\<close>. The provider answers with one call
  of the tool \<open>fetch\<close>, the tool is in the list, and its \<open>execute\<close> throws \<open>undefined\<close>. The
  \<open>catch\<close> of the call reads \<open>message\<close> of \<open>undefined\<close>, the \<open>TypeError\<close> of that read leaves
  the loop, and the run ends with \<open>agent_error\<close>: after the \<open>tool_execution_start\<close> of
  the call there is no \<open>tool_execution_end\<close>, no tool result and no \<open>turn_end\<close>, and the
  session log ends with the assistant message that holds the call. The claim says the
  content of the tool result is \<open>Execution error: <message>\<close> and that the error does not
  leave the loop.
\<close>

theorem toolThrow_escapes:
  "findTool ex_throwTools ''fetch'' = Some (ex_throwTools ! 0)
   \<and> tool_execute (ex_throwTools ! 0) 5 [] = Inl ThrownUndefined
   \<and> fst (runAgentLoop charEstimator ex_throwParams ex_throwEnv [] [ex_question] None)
        = Some (readOfNullish ''undefined'')
   \<and> ls_events (snd (runAgentLoop charEstimator ex_throwParams ex_throwEnv [] [ex_question] None))
        = [TurnStart 1, ToolExecutionStart ''c1'' ''fetch'' [],
           AgentError ''run'' (readOfNullish ''undefined'')]
   \<and> ls_store (snd (runAgentLoop charEstimator ex_throwParams ex_throwEnv [] [ex_question] None))
        = [\<lparr>role = Assistant, content = Blocks [ToolUse (Some ''c1'') (Some ''fetch'') []],
            timestamp = 5\<rparr>]
   \<and> ls_totalToolCalls (snd (runAgentLoop charEstimator ex_throwParams ex_throwEnv [] [ex_question] None)) = 0"
proof -
  have tools: "toolsForRun ex_throwParams = ex_throwTools" "0 < maxTurns ex_throwParams"
    by (simp_all add: ex_throwParams_def)
  have sel: "runId ex_throwParams = ''run''" "sessionKey ex_throwParams = ''main''"
    "appendMessage ex_throwParams = (\<lambda>k msg now transcript. transcript @ [msg])"
    by (simp_all add: ex_throwParams_def)
  note loop = ex_throw_loop[OF tools, of charEstimator "[] :: Message list" "[ex_question]"]
  show ?thesis
    by (simp add: runAgentLoop_def loop sel findTool_def ex_throwTools_def ex_throwAssistant_def)
qed

section \<open>Context overflow in the loop\<close>

lemma turnBody_error:
  assumes "llmCallWithRetry env (systemPrompt p) (messagesForModel E p (beginTurn p env s))
             (ls_tick (beginTurn p env s)) (ls_events (beginTurn p env s)) = (Inl errorText, t, out, buf)"
  shows "turnBody E p env s
           = handleLlmError p env ((beginTurn p env s)\<lparr>ls_tick := t, ls_events := out\<rparr>) errorText"
  using assms by (simp add: turnBody_def Let_def)

lemma beginTurn_sel:
  "ls_turns (beginTurn p env s) = ls_turns s + 1"
  "ls_overflowCompactionAttempted (beginTurn p env s) = ls_overflowCompactionAttempted s"
  "ls_hasMoreToolCalls (beginTurn p env s) = ls_hasMoreToolCalls s"
  "ls_currentMessages (beginTurn p env s) = ls_currentMessages s @ ls_pendingMessages s"
  "ls_pendingMessages (beginTurn p env s) = []"
  "ls_compactionSummary (beginTurn p env s) = ls_compactionSummary s"
  "ls_tick (beginTurn p env s) = ls_tick s"
  by (simp_all add: beginTurn_def)

lemma finishTurn_flag:
  "ls_overflowCompactionAttempted (snd (finishTurn p env s buf)) = ls_overflowCompactionAttempted s"
  by (simp add: finishTurn_def Let_def split: option.splits)

lemma turnBody_flag:
  assumes "ls_overflowCompactionAttempted s"
  shows "ls_overflowCompactionAttempted (snd (turnBody E p env s))"
proof -
  let ?s1 = "beginTurn p env s"
  obtain q t out buf where c: "llmCallWithRetry env (systemPrompt p) (messagesForModel E p ?s1)
       (ls_tick ?s1) (ls_events ?s1) = (q, t, out, buf)"
    by (metis prod_cases4)
  show ?thesis
  proof (cases q)
    case (Inl errorText)
    with c have "turnBody E p env s
         = handleLlmError p env (?s1\<lparr>ls_tick := t, ls_events := out\<rparr>) errorText"
      by (simp add: turnBody_error)
    then show ?thesis using assms by (simp add: handleLlmError_def beginTurn_sel)
  next
    case (Inr u)
    with c have "turnBody E p env s = finishTurn p env (?s1\<lparr>ls_tick := t, ls_events := out\<rparr>) buf"
      by (simp add: turnBody_def Let_def)
    then show ?thesis using assms by (simp add: finishTurn_flag beginTurn_sel)
  qed
qed

lemma agentLoop_flag:
  assumes "ls_overflowCompactionAttempted s"
  shows "ls_overflowCompactionAttempted (snd (agentLoop E p env s))"
  using assms
proof (induction E p env s rule: agentLoop.induct)
  case (1 E p env s)
  show ?case
  proof (cases "ls_hasMoreToolCalls s \<or> length (ls_pendingMessages s) > 0")
    case True
    show ?thesis
    proof (cases "ls_turns s \<ge> maxTurns p \<or> env_aborted env (ls_tick s)")
      case True
      then show ?thesis using \<open>ls_hasMoreToolCalls s \<or> length (ls_pendingMessages s) > 0\<close> "1.prems"
        by (subst agentLoop.simps) auto
    next
      case False
      obtain r s' where tbr: "turnBody E p env (s\<lparr>ls_tick := ls_tick s + 1\<rparr>) = (r, s')"
        by (cases "turnBody E p env (s\<lparr>ls_tick := ls_tick s + 1\<rparr>)")
      have f: "ls_overflowCompactionAttempted s'"
        using turnBody_flag[of "s\<lparr>ls_tick := ls_tick s + 1\<rparr>" E p env] "1.prems" tbr by simp
      from False True have a: "\<not> maxTurns p \<le> ls_turns s" "\<not> env_aborted env (ls_tick s)" by auto
      show ?thesis
      proof (cases r)
        case None
        have "ls_overflowCompactionAttempted (snd (agentLoop E p env s'))"
          using "1.IH"(1)[OF True a(1) a(2) tbr[symmetric] None f] .
        then show ?thesis using True a tbr None by (subst agentLoop.simps) simp
      next
        case (Some thrown)
        then show ?thesis using True a tbr f by (subst agentLoop.simps) simp
      qed
    qed
  next
    case False
    show ?thesis
    proof (cases "env_followUp env")
      case None
      then show ?thesis using False "1.prems" by (subst agentLoop.simps) simp
    next
      case (Some g)
      show ?thesis
      proof (cases "length (g (ls_tick s)) > 0")
        case True
        have "ls_overflowCompactionAttempted (snd (agentLoop E p env (s\<lparr>ls_pendingMessages := g (ls_tick s), ls_hasMoreToolCalls := True,
                           ls_tick := ls_tick s + 1\<rparr>)))"
          using "1.IH"(2)[OF False Some refl True] "1.prems" by simp
        then show ?thesis using False Some True by (subst agentLoop.simps) (simp add: Let_def)
      next
        case False
        then show ?thesis using \<open>\<not> (ls_hasMoreToolCalls s \<or> length (ls_pendingMessages s) > 0)\<close> Some "1.prems"
          by (subst agentLoop.simps) (simp add: Let_def)
      qed
    qed
  qed
qed

lemma ex_overflow_class:
  "isContextOverflowError ''context length exceeded''"
  "\<not> isRateLimitError ''context length exceeded''"
  by (simp_all add: isContextOverflowError_def isRateLimitError_def matchesAnyPattern_def
        CONTEXT_OVERFLOW_PATTERNS_def RATE_LIMIT_PATTERNS_def js_toLowerCase_def lower_char_def Let_def)

lemma ex_overflow_llm:
  "llmCallWithRetry (ex_overflowEnv b) sp ms 2 out
     = (Inl ''context length exceeded'', 5, out,
        \<lparr>assistantContent = [], toolCalls = [], turnTextParts = []\<rparr>)"
  by (simp add: llmCallWithRetry_def numeral_3_eq_3 llmAttempt_def ex_overflowEnv_def Let_def
        ex_overflow_class)

lemma ex_ok_llm:
  "t \<noteq> 2 \<Longrightarrow> llmCallWithRetry (ex_overflowEnv b) sp ms t out
     = (Inr (), t + 3, out,
        \<lparr>assistantContent = [TextBlock ''done''], toolCalls = [], turnTextParts = [''done'']\<rparr>)"
  by (simp add: llmCallWithRetry_def numeral_3_eq_3 llmAttempt_def ex_overflowEnv_def Let_def)

lemma ex_overflowStart_eq:
  "ex_overflowStart =
      \<lparr>ls_tick = 1, ls_events = [], ls_store = [], ls_currentMessages = [ex_question],
       ls_compactionSummary = None, ls_turns = 0, ls_totalToolCalls = 0, ls_finalText = [],
       ls_overflowCompactionAttempted = False, ls_pendingMessages = [],
       ls_hasMoreToolCalls = True\<rparr>"
  by (simp add: ex_overflowStart_def initialLoopState_def ex_overflowEnv_def)

lemma ex_overflowTurn_eq:
  "ex_overflowTurn =
      \<lparr>ls_tick = 2, ls_events = [TurnStart 1], ls_store = [], ls_currentMessages = [ex_question],
       ls_compactionSummary = None, ls_turns = 1, ls_totalToolCalls = 0, ls_finalText = [],
       ls_overflowCompactionAttempted = False, ls_pendingMessages = [],
       ls_hasMoreToolCalls = True\<rparr>"
  by (simp add: ex_overflowTurn_def ex_overflowStart_eq beginTurn_def)

text \<open>
  Claim C3, as amended. A turn is entered and its provider call fails, after the retries,
  with the error \<open>errorText\<close>. If the error is classified as a context overflow and
  \<open>overflowCompactionAttempted\<close> is not set, the loop sets it, pushes
  \<open>context_overflow_compact\<close> and calls \<open>prepareCompaction\<close> on the current messages.
  If that gives a non-empty summary and a summary message, the message becomes
  \<open>compactionSummary\<close>, the turn counter is put back, and (in a turn entered with
  \<open>hasMoreToolCalls\<close> set) the loop goes on from the head of the inner loop: unless aborted
  it runs the turn again, under the same turn number, and sends the provider the summary
  message before the pruned messages. If it gives no summary or no message, the overflow
  error is thrown on; if it throws itself, that error is. If the flag is already set, or
  the error is not a context overflow, the error of the provider is thrown on, whatever it
  is. The flag, once set, stays set through every turn of the run, and an error thrown out
  of the loops ends the stream with \<open>agent_error\<close>.
\<close>

theorem overflow_compaction_once:
  assumes "ls_hasMoreToolCalls s \<or> ls_pendingMessages s \<noteq> []"
    and "ls_turns s < maxTurns p" and "\<not> env_aborted env (ls_tick s)"
    and "s1 = beginTurn p env (s\<lparr>ls_tick := ls_tick s + 1\<rparr>)"
    and "llmCallWithRetry env (systemPrompt p) (messagesForModel E p s1) (ls_tick s1) (ls_events s1)
           = (Inl errorText, t, out, buf)"
    and "s2 = s1\<lparr>ls_overflowCompactionAttempted := True,
                    ls_events := out @ [ContextOverflowCompact errorText],
                    ls_tick := t + 1\<rparr>"
    and "s3 = s2\<lparr>ls_compactionSummary := Some summaryMessage, ls_turns := ls_turns s\<rparr>"
  shows "(isContextOverflowError errorText \<and> \<not> ls_overflowCompactionAttempted s
            \<and> env_prepareCompaction env t (ls_currentMessages s1) = Inr (Some summary, Some summaryMessage)
            \<and> summary \<noteq> [] \<and> ls_hasMoreToolCalls s \<longrightarrow>
            agentLoop E p env s = agentLoop E p env s3
            \<and> (\<not> env_aborted env (t + 1) \<longrightarrow>
                 agentLoop E p env s3 =
                   (case turnBody E p env (s3\<lparr>ls_tick := t + 2\<rparr>) of
                      (Some thrown, s') \<Rightarrow> (Some thrown, s')
                    | (None, s') \<Rightarrow> agentLoop E p env s')
                 \<and> messagesForModel E p (beginTurn p env (s3\<lparr>ls_tick := t + 2\<rparr>))
                      = summaryMessage # prunedForModel E (contextTokens p) (ls_currentMessages s1)
                 \<and> ls_turns (beginTurn p env (s3\<lparr>ls_tick := t + 2\<rparr>)) = ls_turns s + 1))
       \<and> (isContextOverflowError errorText \<and> \<not> ls_overflowCompactionAttempted s
            \<and> env_prepareCompaction env t (ls_currentMessages s1) = Inr (optSummary, optMessage)
            \<and> \<not> (truthy optSummary \<and> optMessage \<noteq> None) \<longrightarrow>
            agentLoop E p env s = (Some errorText, s2))
       \<and> (isContextOverflowError errorText \<and> \<not> ls_overflowCompactionAttempted s
            \<and> env_prepareCompaction env t (ls_currentMessages s1) = Inl thrown \<longrightarrow>
            agentLoop E p env s = (Some thrown, s2))
       \<and> (ls_overflowCompactionAttempted s \<or> \<not> isContextOverflowError errorText \<longrightarrow>
            agentLoop E p env s = (Some errorText, s1\<lparr>ls_tick := t, ls_events := out\<rparr>))
       \<and> (ls_overflowCompactionAttempted s0 \<longrightarrow>
            ls_overflowCompactionAttempted (snd (turnBody E p env s0))
            \<and> ls_overflowCompactionAttempted (snd (agentLoop E p env s0)))
       \<and> (agentLoop E p env (initialLoopState env store msgs summaryMsg) = (Some thrown, s') \<longrightarrow>
            runAgentLoop E p env store msgs summaryMsg
              = (Some thrown, s'\<lparr>ls_events := ls_events s' @ [AgentError (runId p) thrown]\<rparr>))"
proof -
  have enter: "agentLoop E p env s =
     (case turnBody E p env (s\<lparr>ls_tick := ls_tick s + 1\<rparr>) of
        (Some thrown, s') \<Rightarrow> (Some thrown, s')
      | (None, s') \<Rightarrow> agentLoop E p env s')"
    using assms(1-3) by (simp add: agentLoop_enter)
  have tb: "turnBody E p env (s\<lparr>ls_tick := ls_tick s + 1\<rparr>)
              = handleLlmError p env (s1\<lparr>ls_tick := t, ls_events := out\<rparr>) errorText"
    using assms(5) unfolding assms(4) by (rule turnBody_error)
  have sel: "ls_turns s1 = ls_turns s + 1"
    "ls_overflowCompactionAttempted s1 = ls_overflowCompactionAttempted s"
    "ls_hasMoreToolCalls s1 = ls_hasMoreToolCalls s" "ls_pendingMessages s1 = []"
    unfolding assms(4) by (simp_all add: beginTurn_sel)
  have A: "agentLoop E p env s = agentLoop E p env s3"
    if "isContextOverflowError errorText" "\<not> ls_overflowCompactionAttempted s"
       "env_prepareCompaction env t (ls_currentMessages s1) = Inr (Some summary, Some summaryMessage)"
       "summary \<noteq> []"
    using that sel unfolding enter tb assms(6,7)
    by (simp add: handleLlmError_def Let_def truthy_def)
  have B: "agentLoop E p env s3 =
                   (case turnBody E p env (s3\<lparr>ls_tick := t + 2\<rparr>) of
                      (Some thrown, s') \<Rightarrow> (Some thrown, s')
                    | (None, s') \<Rightarrow> agentLoop E p env s')
                 \<and> messagesForModel E p (beginTurn p env (s3\<lparr>ls_tick := t + 2\<rparr>))
                      = summaryMessage # prunedForModel E (contextTokens p) (ls_currentMessages s1)
                 \<and> ls_turns (beginTurn p env (s3\<lparr>ls_tick := t + 2\<rparr>)) = ls_turns s + 1"
    if "ls_hasMoreToolCalls s" "\<not> env_aborted env (t + 1)"
  proof -
    have "ls_hasMoreToolCalls s3" "ls_turns s3 < maxTurns p" "\<not> env_aborted env (ls_tick s3)"
      "ls_tick s3 + 1 = t + 2"
      using assms(2) that sel unfolding assms(6,7) by simp_all
    then have "agentLoop E p env s3 =
                   (case turnBody E p env (s3\<lparr>ls_tick := t + 2\<rparr>) of
                      (Some thrown, s') \<Rightarrow> (Some thrown, s')
                    | (None, s') \<Rightarrow> agentLoop E p env s')"
      using agentLoop_enter[of s3 p env E] by simp
    moreover have "messagesForModel E p (beginTurn p env (s3\<lparr>ls_tick := t + 2\<rparr>))
                      = summaryMessage # prunedForModel E (contextTokens p) (ls_currentMessages s1)"
      using sel unfolding assms(6,7) by (simp add: messagesForModel_def beginTurn_sel)
    moreover have "ls_turns (beginTurn p env (s3\<lparr>ls_tick := t + 2\<rparr>)) = ls_turns s + 1"
      unfolding assms(6,7) by (simp add: beginTurn_sel)
    ultimately show ?thesis by blast
  qed
  have C: "agentLoop E p env s = (Some errorText, s2)"
    if "isContextOverflowError errorText" "\<not> ls_overflowCompactionAttempted s"
       "env_prepareCompaction env t (ls_currentMessages s1) = Inr (optSummary, optMessage)"
       "\<not> (truthy optSummary \<and> optMessage \<noteq> None)"
    using that sel unfolding enter tb assms(6)
    by (auto simp: handleLlmError_def Let_def)
  have D: "agentLoop E p env s = (Some thrown, s2)"
    if "isContextOverflowError errorText" "\<not> ls_overflowCompactionAttempted s"
       "env_prepareCompaction env t (ls_currentMessages s1) = Inl thrown"
    using that sel unfolding enter tb assms(6)
    by (simp add: handleLlmError_def Let_def)
  have F: "agentLoop E p env s = (Some errorText, s1\<lparr>ls_tick := t, ls_events := out\<rparr>)"
    if "ls_overflowCompactionAttempted s \<or> \<not> isContextOverflowError errorText"
    using that sel unfolding enter tb by (auto simp: handleLlmError_def)
  have G: "ls_overflowCompactionAttempted (snd (turnBody E p env s0))
            \<and> ls_overflowCompactionAttempted (snd (agentLoop E p env s0))"
    if "ls_overflowCompactionAttempted s0"
    using that by (simp add: turnBody_flag agentLoop_flag)
  have H: "runAgentLoop E p env store msgs summaryMsg
              = (Some thrown, s'\<lparr>ls_events := ls_events s' @ [AgentError (runId p) thrown]\<rparr>)"
    if "agentLoop E p env (initialLoopState env store msgs summaryMsg) = (Some thrown, s')"
    using that by (simp add: runAgentLoop_def)
  show ?thesis
  proof (intro conjI impI)
    assume h: "isContextOverflowError errorText \<and> \<not> ls_overflowCompactionAttempted s
            \<and> env_prepareCompaction env t (ls_currentMessages s1) = Inr (Some summary, Some summaryMessage)
            \<and> summary \<noteq> [] \<and> ls_hasMoreToolCalls s"
    then show "agentLoop E p env s = agentLoop E p env s3" using A by blast
    {
      assume "\<not> env_aborted env (t + 1)"
      with h B show "agentLoop E p env s3 =
                   (case turnBody E p env (s3\<lparr>ls_tick := t + 2\<rparr>) of
                      (Some thrown, s') \<Rightarrow> (Some thrown, s')
                    | (None, s') \<Rightarrow> agentLoop E p env s')"
        "messagesForModel E p (beginTurn p env (s3\<lparr>ls_tick := t + 2\<rparr>))
                      = summaryMessage # prunedForModel E (contextTokens p) (ls_currentMessages s1)"
        "ls_turns (beginTurn p env (s3\<lparr>ls_tick := t + 2\<rparr>)) = ls_turns s + 1"
        by blast+
    }
  next
    assume "isContextOverflowError errorText \<and> \<not> ls_overflowCompactionAttempted s
            \<and> env_prepareCompaction env t (ls_currentMessages s1) = Inr (optSummary, optMessage)
            \<and> \<not> (truthy optSummary \<and> optMessage \<noteq> None)"
    then show "agentLoop E p env s = (Some errorText, s2)" using C by blast
  next
    assume "isContextOverflowError errorText \<and> \<not> ls_overflowCompactionAttempted s
            \<and> env_prepareCompaction env t (ls_currentMessages s1) = Inl thrown"
    then show "agentLoop E p env s = (Some thrown, s2)" using D by blast
  next
    assume "ls_overflowCompactionAttempted s \<or> \<not> isContextOverflowError errorText"
    then show "agentLoop E p env s = (Some errorText, s1\<lparr>ls_tick := t, ls_events := out\<rparr>)"
      by (rule F)
  next
    assume "ls_overflowCompactionAttempted s0"
    then show "ls_overflowCompactionAttempted (snd (turnBody E p env s0))"
      "ls_overflowCompactionAttempted (snd (agentLoop E p env s0))" using G by blast+
  next
    assume "agentLoop E p env (initialLoopState env store msgs summaryMsg) = (Some thrown, s')"
    then show "runAgentLoop E p env store msgs summaryMsg
              = (Some thrown, s'\<lparr>ls_events := ls_events s' @ [AgentError (runId p) thrown]\<rparr>)"
      by (rule H)
  qed
qed

theorem overflow_compaction_once_witness:
  "ls_hasMoreToolCalls ex_overflowStart
   \<and> ls_turns ex_overflowStart < maxTurns ex_loopParams
   \<and> \<not> env_aborted (ex_overflowEnv True) (ls_tick ex_overflowStart)
   \<and> llmCallWithRetry (ex_overflowEnv True) (systemPrompt ex_loopParams)
         (messagesForModel charEstimator ex_loopParams ex_overflowTurn)
         (ls_tick ex_overflowTurn) (ls_events ex_overflowTurn)
       = (Inl ''context length exceeded'', 5, [TurnStart 1],
          \<lparr>assistantContent = [], toolCalls = [], turnTextParts = []\<rparr>)
   \<and> isContextOverflowError ''context length exceeded''
   \<and> \<not> ls_overflowCompactionAttempted ex_overflowStart
   \<and> env_prepareCompaction (ex_overflowEnv True) 5 (ls_currentMessages ex_overflowTurn)
       = Inr (Some ''earlier talk'', Some ex_summaryMessage)
   \<and> agentLoop charEstimator ex_loopParams (ex_overflowEnv True) ex_overflowStart
       = agentLoop charEstimator ex_loopParams (ex_overflowEnv True) ex_compacted
   \<and> ls_turns ex_compacted = 0
   \<and> messagesForModel charEstimator ex_loopParams
         (beginTurn ex_loopParams (ex_overflowEnv True) (ex_compacted\<lparr>ls_tick := 7\<rparr>))
       = ex_summaryMessage # prunedForModel charEstimator 1000 [ex_question]"
proof -
  have h1: "ls_hasMoreToolCalls ex_overflowStart" by (simp add: ex_overflowStart_eq)
  have h2: "ls_turns ex_overflowStart < maxTurns ex_loopParams"
    by (simp add: ex_overflowStart_eq ex_loopParams_def)
  have h3: "\<not> env_aborted (ex_overflowEnv True) (ls_tick ex_overflowStart)"
    by (simp add: ex_overflowEnv_def)
  have h4: "ex_overflowTurn = beginTurn ex_loopParams (ex_overflowEnv True)
               (ex_overflowStart\<lparr>ls_tick := ls_tick ex_overflowStart + 1\<rparr>)"
    by (simp add: ex_overflowTurn_def ex_overflowStart_eq numeral_2_eq_2)
  have h5: "llmCallWithRetry (ex_overflowEnv True) (systemPrompt ex_loopParams)
         (messagesForModel charEstimator ex_loopParams ex_overflowTurn)
         (ls_tick ex_overflowTurn) (ls_events ex_overflowTurn)
       = (Inl ''context length exceeded'', 5, [TurnStart 1],
          \<lparr>assistantContent = [], toolCalls = [], turnTextParts = []\<rparr>)"
    by (simp add: ex_overflowTurn_eq ex_overflow_llm)
  have h6: "isContextOverflowError ''context length exceeded''" by (rule ex_overflow_class(1))
  have h7: "ex_overflowTurn\<lparr>ls_overflowCompactionAttempted := True,
                     ls_events := [TurnStart 1, ContextOverflowCompact ''context length exceeded''],
                     ls_tick := 6\<rparr>
            = ex_overflowTurn\<lparr>ls_overflowCompactionAttempted := True,
                    ls_events := [TurnStart 1] @ [ContextOverflowCompact ''context length exceeded''],
                    ls_tick := 5 + 1\<rparr>"
    by simp
  have h8: "ex_compacted = (ex_overflowTurn\<lparr>ls_overflowCompactionAttempted := True,
                     ls_events := [TurnStart 1, ContextOverflowCompact ''context length exceeded''],
                     ls_tick := 6\<rparr>)\<lparr>ls_compactionSummary := Some ex_summaryMessage,
                        ls_turns := ls_turns ex_overflowStart\<rparr>"
    by (simp add: ex_compacted_def ex_overflowStart_eq)
  have g1: "\<not> ls_overflowCompactionAttempted ex_overflowStart" by (simp add: ex_overflowStart_eq)
  have g2: "env_prepareCompaction (ex_overflowEnv True) 5 (ls_currentMessages ex_overflowTurn)
       = Inr (Some ''earlier talk'', Some ex_summaryMessage)"
    by (simp add: ex_overflowEnv_def)
  have g3: "\<not> env_aborted (ex_overflowEnv True) (5 + 1)" by (simp add: ex_overflowEnv_def)
  have h0: "ls_hasMoreToolCalls ex_overflowStart \<or> ls_pendingMessages ex_overflowStart \<noteq> []"
    using h1 by simp
  note T = overflow_compaction_once[OF h0 h2 h3 h4 h5 h7 h8,
      where summary="''earlier talk''"]
  have c: "agentLoop charEstimator ex_loopParams (ex_overflowEnv True) ex_overflowStart
       = agentLoop charEstimator ex_loopParams (ex_overflowEnv True) ex_compacted
     \<and> messagesForModel charEstimator ex_loopParams
         (beginTurn ex_loopParams (ex_overflowEnv True) (ex_compacted\<lparr>ls_tick := 5 + 2\<rparr>))
       = ex_summaryMessage # prunedForModel charEstimator (contextTokens ex_loopParams)
                               (ls_currentMessages ex_overflowTurn)"
    using conjunct1[OF T] h1 h6 g1 g2 g3 by simp
  have k: "contextTokens ex_loopParams = 1000" "ls_currentMessages ex_overflowTurn = [ex_question]"
    "ls_turns ex_compacted = 0"
    by (simp_all add: ex_loopParams_def ex_overflowTurn_eq ex_compacted_def)
  show ?thesis
    using h1 h2 h3 h5 h6 g1 g2 c k by simp
qed

theorem overflow_counterexample:
  "isContextOverflowError ''context length exceeded''
   \<and> \<not> ls_overflowCompactionAttempted
         (initialLoopState (ex_overflowEnv False) ([] :: Message list) [ex_question] None)
   \<and> runAgentLoop charEstimator ex_loopParams (ex_overflowEnv False) [] [ex_question] None
       = (Some ''context length exceeded'',
          \<lparr>ls_tick = 6,
           ls_events = [TurnStart 1, ContextOverflowCompact ''context length exceeded'',
                        AgentError ''run'' ''context length exceeded''],
           ls_store = [], ls_currentMessages = [ex_question],
           ls_compactionSummary = None, ls_turns = 1, ls_totalToolCalls = 0, ls_finalText = [],
           ls_overflowCompactionAttempted = True, ls_pendingMessages = [],
           ls_hasMoreToolCalls = True\<rparr>)"
proof -
  have i: "initialLoopState (ex_overflowEnv False) [] [ex_question] None =
      \<lparr>ls_tick = 1, ls_events = [], ls_store = ([] :: Message list), ls_currentMessages = [ex_question],
       ls_compactionSummary = None, ls_turns = 0, ls_totalToolCalls = 0, ls_finalText = [],
       ls_overflowCompactionAttempted = False, ls_pendingMessages = [],
       ls_hasMoreToolCalls = True\<rparr>"
    by (simp add: initialLoopState_def ex_overflowEnv_def)
  have sel: "env_aborted (ex_overflowEnv False) = (\<lambda>t. False)"
    "env_prepareCompaction (ex_overflowEnv False) = (\<lambda>t ms. Inr (None, None))"
    "maxTurns ex_loopParams = 3" "runId ex_loopParams = ''run''"
    by (simp_all add: ex_overflowEnv_def ex_loopParams_def)
  have tb: "turnBody charEstimator ex_loopParams (ex_overflowEnv False)
       \<lparr>ls_tick = 2, ls_events = [], ls_store = ([] :: Message list), ls_currentMessages = [ex_question],
       ls_compactionSummary = None, ls_turns = 0, ls_totalToolCalls = 0, ls_finalText = [],
       ls_overflowCompactionAttempted = False, ls_pendingMessages = [],
       ls_hasMoreToolCalls = True\<rparr>
     = (Some ''context length exceeded'',
        \<lparr>ls_tick = 6,
           ls_events = [TurnStart 1, ContextOverflowCompact ''context length exceeded''],
           ls_store = [], ls_currentMessages = [ex_question],
           ls_compactionSummary = None, ls_turns = 1, ls_totalToolCalls = 0, ls_finalText = [],
           ls_overflowCompactionAttempted = True, ls_pendingMessages = [],
           ls_hasMoreToolCalls = True\<rparr>)"
    by (simp add: turnBody_def beginTurn_def Let_def ex_overflow_llm handleLlmError_def
          ex_overflow_class sel truthy_def)
  have "agentLoop charEstimator ex_loopParams (ex_overflowEnv False)
          (initialLoopState (ex_overflowEnv False) [] [ex_question] None)
        = (Some ''context length exceeded'',
        \<lparr>ls_tick = 6,
           ls_events = [TurnStart 1, ContextOverflowCompact ''context length exceeded''],
           ls_store = [], ls_currentMessages = [ex_question],
           ls_compactionSummary = None, ls_turns = 1, ls_totalToolCalls = 0, ls_finalText = [],
           ls_overflowCompactionAttempted = True, ls_pendingMessages = [],
           ls_hasMoreToolCalls = True\<rparr>)"
    unfolding i by (subst agentLoop.simps) (simp add: sel tb[unfolded numeral_2_eq_2])
  then have r: "runAgentLoop charEstimator ex_loopParams (ex_overflowEnv False) [] [ex_question] None
       = (Some ''context length exceeded'',
          \<lparr>ls_tick = 6,
           ls_events = [TurnStart 1, ContextOverflowCompact ''context length exceeded'',
                        AgentError ''run'' ''context length exceeded''],
           ls_store = [], ls_currentMessages = [ex_question],
           ls_compactionSummary = None, ls_turns = 1, ls_totalToolCalls = 0, ls_finalText = [],
           ls_overflowCompactionAttempted = True, ls_pendingMessages = [],
           ls_hasMoreToolCalls = True\<rparr>)"
    by (simp add: runAgentLoop_def sel)
  have f: "\<not> ls_overflowCompactionAttempted
         (initialLoopState (ex_overflowEnv False) ([] :: Message list) [ex_question] None)"
    by (simp add: initialLoopState_def)
  show ?thesis
    by (intro conjI) (rule ex_overflow_class(1), rule f, rule r)
qed


section \<open>The guard and the pairing of tool calls\<close>

lemma toolUseIds_extract: "map fst (extractToolUsesFromAssistant m) = toolUseIds m"
proof -
  define f :: "ContentBlock \<Rightarrow> TrackedCall option" where
    "f = (\<lambda>block. case block of
                ToolUse bid bname binput \<Rightarrow> if truthy bid then Some (the bid, bname) else None
              | _ \<Rightarrow> None)"
  have fb: "f (ToolUse (Some bid) bname binput) = (if bid = [] then None else Some (bid, bname))"
    "f (ToolUse None bname binput) = None" "f (TextBlock v) = None" "f (ToolResult rid rname rcontent) = None"
    for bid bname binput v rid rname rcontent
    by (simp_all add: f_def truthy_def)
  have step: "map fst (List.map_filter f (b # bs)) = toolUseId b @ map fst (List.map_filter f bs)" for b bs
    by (cases b rule: toolUseId.cases) (simp_all add: fb List.map_filter_simps)
  have "map fst (List.map_filter f bs) = concat (map toolUseId bs)" for bs
  proof (induction bs)
    case Nil
    show ?case by (simp add: List.map_filter_simps)
  next
    case (Cons b bs)
    then show ?case unfolding step by simp
  qed
  then show ?thesis
    unfolding f_def
    by (cases "content m") (simp_all add: extractToolUsesFromAssistant_def toolUseIds_def blocksOf_def)
qed

lemma toolResultIds_extract: "extractToolResultIds m = toolResultIds m"
proof -
  define f :: "ContentBlock \<Rightarrow> string option" where
    "f = (\<lambda>block. case block of
                ToolResult rid rname rcontent \<Rightarrow> if truthy rid then rid else None
              | _ \<Rightarrow> None)"
  have fb: "f (ToolResult (Some rid) rname rcontent) = (if rid = [] then None else Some rid)"
    "f (ToolResult None rname rcontent) = None" "f (TextBlock v) = None" "f (ToolUse bid bname binput) = None"
    for bid bname binput v rid rname rcontent
    by (simp_all add: f_def truthy_def)
  have step: "List.map_filter f (b # bs) = toolResultId b @ List.map_filter f bs" for b bs
    by (cases b rule: toolResultId.cases) (simp_all add: fb List.map_filter_simps)
  have "List.map_filter f bs = concat (map toolResultId bs)" for bs
  proof (induction bs)
    case Nil
    show ?case by (simp add: List.map_filter_simps)
  next
    case (Cons b bs)
    then show ?case unfolding step by simp
  qed
  then show ?thesis
    unfolding f_def
    by (cases "content m") (simp_all add: extractToolResultIds_def toolResultIds_def blocksOf_def)
qed

lemma toolUseIds_mem:
  "uid \<in> set (toolUseIds m) \<longleftrightarrow>
     role m = Assistant \<and> uid \<noteq> []
     \<and> (\<exists>blocks bname binput. content m = Blocks blocks \<and> ToolUse (Some uid) bname binput \<in> set blocks)"
proof -
  have "uid \<in> set (toolUseId b) \<longleftrightarrow> uid \<noteq> [] \<and> (\<exists>bname binput. b = ToolUse (Some uid) bname binput)" for b
    by (cases b rule: toolUseId.cases) auto
  then show ?thesis
    by (cases "content m") (auto simp: toolUseIds_def blocksOf_def)
qed

lemma toolResultIds_mem:
  "uid \<in> set (toolResultIds m) \<longleftrightarrow>
     role m = User \<and> uid \<noteq> []
     \<and> (\<exists>blocks rname rcontent. content m = Blocks blocks \<and> ToolResult (Some uid) rname rcontent \<in> set blocks)"
proof -
  have "uid \<in> set (toolResultId b) \<longleftrightarrow> uid \<noteq> [] \<and> (\<exists>rname rcontent. b = ToolResult (Some uid) rname rcontent)" for b
    by (cases b rule: toolResultId.cases) auto
  then show ?thesis
    by (cases "content m") (auto simp: toolResultIds_def blocksOf_def)
qed

lemma toolUseIds_user: "role m = User \<Longrightarrow> toolUseIds m = []"
  by (simp add: toolUseIds_def)

lemma toolResultIds_role: "toolResultIds m \<noteq> [] \<Longrightarrow> role m = User"
  by (cases "role m = User") (simp_all add: toolResultIds_def)

lemma answeredLater_append:
  assumes "i < length T"
  shows "answeredLater (T @ [m]) i uid = (answeredLater T i uid \<or> uid \<in> set (toolResultIds m))"
proof -
  have "{i<..<length (T @ [m])} = insert (length T) {i<..<length T}" using assms by auto
  then show ?thesis by (auto simp: answeredLater_def nth_append)
qed

lemma answeredLater_last: "\<not> answeredLater (T @ [m]) (length T) uid"
  by (auto simp: answeredLater_def)

lemma unansweredIds_append:
  "unansweredIds (T @ [m]) = (unansweredIds T - set (toolResultIds m)) \<union> set (toolUseIds m)"
proof -
  have "{..<length (T @ [m])} = insert (length T) {..<length T}" by auto
  then have "unansweredIds (T @ [m]) =
       {uid \<in> set (toolUseIds m). \<not> answeredLater (T @ [m]) (length T) uid}
       \<union> (\<Union>i \<in> {..<length T}. {uid \<in> set (toolUseIds ((T @ [m]) ! i)). \<not> answeredLater (T @ [m]) i uid})"
    by (simp add: unansweredIds_def)
  also have "{uid \<in> set (toolUseIds m). \<not> answeredLater (T @ [m]) (length T) uid} = set (toolUseIds m)"
    by (simp add: answeredLater_last)
  also have "(\<Union>i \<in> {..<length T}. {uid \<in> set (toolUseIds ((T @ [m]) ! i)). \<not> answeredLater (T @ [m]) i uid})
       = unansweredIds T - set (toolResultIds m)"
    by (auto simp: unansweredIds_def answeredLater_append nth_append)
  finally show ?thesis by blast
qed

lemma unansweredIds_nonempty: "[] \<notin> unansweredIds T"
  by (auto simp: unansweredIds_def toolUseIds_mem)

lemma toolCallsPaired_iff: "toolCallsPaired T = (unansweredIds T = {})"
  by (auto simp: toolCallsPaired_def unansweredIds_def)

lemma mapSet_keys: "fst ` set (mapSet k v entries) = insert k (fst ` set entries)"
  by (induction entries) auto

lemma mapDelete_keys: "fst ` set (mapDelete k entries) = fst ` set entries - {k}"
  by (auto simp: mapDelete_def)

lemma mapSet_distinct: "distinct (map fst entries) \<Longrightarrow> distinct (map fst (mapSet k v entries))"
proof (induction entries)
  case Nil
  show ?case by simp
next
  case (Cons entry rest)
  show ?case
  proof (cases "fst entry = k")
    case True
    with Cons.prems show ?thesis by simp
  next
    case False
    have "fst entry \<notin> fst ` set (mapSet k v rest)"
      using False Cons.prems unfolding mapSet_keys by auto
    with False Cons show ?thesis by simp
  qed
qed

lemma mapDelete_distinct: "distinct (map fst entries) \<Longrightarrow> distinct (map fst (mapDelete k entries))"
  by (simp add: mapDelete_def distinct_map_filter)

lemma foldl_mapSet_keys:
  "fst ` set (foldl (\<lambda>pending call. mapSet (fst call) (snd call) pending) entries calls)
     = fst ` set entries \<union> fst ` set calls"
  by (induction calls arbitrary: entries) (auto simp: mapSet_keys)

lemma foldl_mapDelete_keys:
  "fst ` set (foldl (\<lambda>pending rid. mapDelete rid pending) entries rids)
     = fst ` set entries - set rids"
  by (induction rids arbitrary: entries) (auto simp: mapDelete_keys)

lemma foldl_mapSet_distinct:
  "distinct (map fst entries) \<Longrightarrow>
     distinct (map fst (foldl (\<lambda>pending call. mapSet (fst call) (snd call) pending) entries calls))"
  by (induction calls arbitrary: entries) (simp_all add: mapSet_distinct)

lemma foldl_mapDelete_distinct:
  "distinct (map fst entries) \<Longrightarrow>
     distinct (map fst (foldl (\<lambda>pending rid. mapDelete rid pending) entries rids))"
  by (induction rids arbitrary: entries) (simp_all add: mapDelete_distinct)

lemma synthetic_ids:
  assumes "[] \<notin> fst ` set pending"
  shows "toolResultIds (syntheticMessage pending now) = map fst pending"
proof -
  have "concat (map toolResultId (map (\<lambda>(pid, pname). makeMissingToolResult pid pname) pending))
          = map fst pending"
    using assms by (induction pending) (auto simp: makeMissingToolResult_def)
  then show ?thesis by (simp add: syntheticMessage_def toolResultIds_def blocksOf_def)
qed

lemma synthetic_uses: "toolUseIds (syntheticMessage pending now) = []"
  by (simp add: syntheticMessage_def toolUseIds_def)

lemma flush_sel:
  "pendingBySession (flushPendingToolResults k now G) k = []"
  "k' \<noteq> k \<Longrightarrow> pendingBySession (flushPendingToolResults k now G) k' = pendingBySession G k'"
  "k' \<noteq> k \<Longrightarrow> transcripts (flushPendingToolResults k now G) k' = transcripts G k'"
  "transcripts (flushPendingToolResults k now G) k =
     (if pendingBySession G k = [] then transcripts G k
      else transcripts G k @ [syntheticMessage (pendingBySession G k) now])"
  by (simp_all add: flushPendingToolResults_def originalAppend_def Let_def syntheticMessage_def)

lemma flush_unanswered:
  assumes "guardInv k G"
  shows "unansweredIds (transcripts (flushPendingToolResults k now G) k) = {}"
proof (cases "pendingBySession G k = []")
  case True
  with assms show ?thesis by (simp add: guardInv_def flush_sel)
next
  case False
  from assms have keys: "fst ` set (pendingBySession G k) = unansweredIds (transcripts G k)"
    by (simp add: guardInv_def)
  then have "[] \<notin> fst ` set (pendingBySession G k)" by (simp add: unansweredIds_nonempty)
  from synthetic_ids[OF this, of now]
  have "set (toolResultIds (syntheticMessage (pendingBySession G k) now)) = unansweredIds (transcripts G k)"
    using keys by simp
  then show ?thesis using False
    by (simp add: flush_sel unansweredIds_append synthetic_uses)
qed

lemma flush_inv:
  assumes "guardInv k' G"
  shows "guardInv k' (flushPendingToolResults k now G)"
proof (cases "k' = k")
  case False
  with assms show ?thesis by (simp add: guardInv_def flush_sel)
next
  case True
  with assms flush_unanswered[of k G now] show ?thesis
    by (simp add: guardInv_def flush_sel(1))
qed

lemma originalAppend_sel:
  "pendingBySession (originalAppend k msg G) = pendingBySession G"
  "transcripts (originalAppend k msg G) k = transcripts G k @ [msg]"
  "k' \<noteq> k \<Longrightarrow> transcripts (originalAppend k msg G) k' = transcripts G k'"
  by (simp_all add: originalAppend_def)

lemma guardedAppend_results:
  assumes "extractToolResultIds msg \<noteq> []"
  shows "transcripts (guardedAppend k msg now G) k = transcripts G k @ [msg]"
    and "pendingBySession (guardedAppend k msg now G) k
           = foldl (\<lambda>pending rid. mapDelete rid pending) (pendingBySession G k) (extractToolResultIds msg)"
  using assms by (simp_all add: guardedAppend_def Let_def originalAppend_sel)

lemma guardedAppend_calls:
  assumes "extractToolResultIds msg = []"
  shows "transcripts (guardedAppend k msg now G) k
           = transcripts (flushPendingToolResults k now G) k @ [msg]"
    and "pendingBySession (guardedAppend k msg now G) k
           = foldl (\<lambda>pending call. mapSet (fst call) (snd call) pending) []
               (extractToolUsesFromAssistant msg)"
proof -
  let ?calls = "extractToolUsesFromAssistant msg"
  let ?G1 = "if length (pendingBySession G k) > 0 \<and> length ?calls = 0
             then flushPendingToolResults k now G else G"
  let ?G2 = "if length (pendingBySession ?G1 k) > 0 \<and> length ?calls > 0
             then flushPendingToolResults k now ?G1 else ?G1"
  have g2: "?G2 = flushPendingToolResults k now G"
  proof (cases "pendingBySession G k = []")
    case True
    then show ?thesis by (simp add: flushPendingToolResults_def)
  next
    case False
    then show ?thesis by (cases "?calls = []") (simp_all add: flush_sel)
  qed
  have eq: "guardedAppend k msg now G =
      (originalAppend k msg ?G2)\<lparr>pendingBySession :=
          (pendingBySession (originalAppend k msg ?G2))
            (k := foldl (\<lambda>pending call. mapSet (fst call) (snd call) pending)
                    (pendingBySession (originalAppend k msg ?G2) k) ?calls)\<rparr>"
    using assms by (simp add: guardedAppend_def Let_def)
  show "transcripts (guardedAppend k msg now G) k
           = transcripts (flushPendingToolResults k now G) k @ [msg]"
    unfolding eq g2 by (simp add: originalAppend_sel)
  show "pendingBySession (guardedAppend k msg now G) k
           = foldl (\<lambda>pending call. mapSet (fst call) (snd call) pending) [] ?calls"
    unfolding eq g2 by (simp add: originalAppend_sel flush_sel)
qed

lemma guardedAppend_others:
  assumes "k' \<noteq> k"
  shows "transcripts (guardedAppend k msg now G) k' = transcripts G k'"
    and "pendingBySession (guardedAppend k msg now G) k' = pendingBySession G k'"
  using assms by (simp_all add: guardedAppend_def Let_def originalAppend_sel flush_sel)

lemma guardedAppend_inv:
  assumes "guardInv k' G"
  shows "guardInv k' (guardedAppend k msg now G)"
proof (cases "k' = k")
  case False
  with assms show ?thesis by (simp add: guardInv_def guardedAppend_others)
next
  case True
  from assms True have inv: "fst ` set (pendingBySession G k) = unansweredIds (transcripts G k)"
    "distinct (map fst (pendingBySession G k))" by (simp_all add: guardInv_def)
  show ?thesis
  proof (cases "extractToolResultIds msg = []")
    case False
    then have "toolResultIds msg \<noteq> []" by (simp add: toolResultIds_extract)
    then have "toolUseIds msg = []" by (simp add: toolResultIds_role toolUseIds_user)
    then show ?thesis
      using inv True
      by (simp add: guardInv_def guardedAppend_results[OF False] unansweredIds_append
            foldl_mapDelete_keys foldl_mapDelete_distinct toolResultIds_extract)
  next
    case e: True
    have u: "unansweredIds (transcripts (flushPendingToolResults k now G) k) = {}"
      using assms True by (simp add: flush_unanswered)
    have "fst ` set (extractToolUsesFromAssistant msg) = set (toolUseIds msg)"
      using toolUseIds_extract[of msg] by (metis set_map)
    then show ?thesis
      using True u
      by (simp add: guardInv_def guardedAppend_calls[OF e] unansweredIds_append
            foldl_mapSet_keys foldl_mapSet_distinct)
  qed
qed

lemma beginTurn_store:
  assumes "\<And>msg now st. I st \<Longrightarrow> I (appendMessage p (sessionKey p) msg now st)" and "I (ls_store s)"
  shows "I (ls_store (beginTurn p env s))"
proof -
  have "I st \<Longrightarrow> I (foldl (\<lambda>st msg. appendMessage p (sessionKey p) msg now st) st msgs)" for st msgs now
    by (induction msgs arbitrary: st) (simp_all add: assms(1))
  then show ?thesis using assms(2) by (simp add: beginTurn_def)
qed

lemma finishTurn_store:
  assumes "\<And>msg now st. I st \<Longrightarrow> I (appendMessage p (sessionKey p) msg now st)" and "I (ls_store s)"
  shows "I (ls_store (snd (finishTurn p env s buf)))"
  using assms by (simp add: finishTurn_def Let_def split: option.splits)

lemma turnBody_store:
  assumes "\<And>msg now st. I st \<Longrightarrow> I (appendMessage p (sessionKey p) msg now st)" and "I (ls_store s)"
  shows "I (ls_store (snd (turnBody E p env s)))"
proof -
  let ?s1 = "beginTurn p env s"
  have b: "I (ls_store ?s1)" by (rule beginTurn_store[where I=I and p=p, OF assms])
  obtain q t out buf where c: "llmCallWithRetry env (systemPrompt p) (messagesForModel E p ?s1)
         (ls_tick ?s1) (ls_events ?s1) = (q, t, out, buf)"
    by (metis prod_cases4)
  show ?thesis
  proof (cases q)
    case (Inl errorText)
    with c have "turnBody E p env s
           = handleLlmError p env (?s1\<lparr>ls_tick := t, ls_events := out\<rparr>) errorText"
      by (simp add: turnBody_error)
    then show ?thesis using b
      by (auto simp: handleLlmError_def Let_def split: sum.splits prod.splits)
  next
    case (Inr u)
    have "I (ls_store (snd (finishTurn p env (?s1\<lparr>ls_tick := t, ls_events := out\<rparr>) buf)))"
      by (rule finishTurn_store[where I=I and p=p, OF assms(1)]) (simp_all add: b)
    with c Inr show ?thesis by (simp add: turnBody_def Let_def)
  qed
qed

lemma agentLoop_store:
  assumes "\<And>msg now st. I st \<Longrightarrow> I (appendMessage p (sessionKey p) msg now st)" and "I (ls_store s)"
  shows "I (ls_store (snd (agentLoop E p env s)))"
  using assms
proof (induction E p env s rule: agentLoop.induct)
  case (1 E p env s)
  show ?case
  proof (cases "ls_hasMoreToolCalls s \<or> length (ls_pendingMessages s) > 0")
    case True
    show ?thesis
    proof (cases "ls_turns s \<ge> maxTurns p \<or> env_aborted env (ls_tick s)")
      case True
      then show ?thesis using \<open>ls_hasMoreToolCalls s \<or> length (ls_pendingMessages s) > 0\<close> "1.prems"(2)
        by (subst agentLoop.simps) auto
    next
      case False
      obtain r s' where tbr: "turnBody E p env (s\<lparr>ls_tick := ls_tick s + 1\<rparr>) = (r, s')"
        by (cases "turnBody E p env (s\<lparr>ls_tick := ls_tick s + 1\<rparr>)")
      have f: "I (ls_store s')"
        using turnBody_store[of I p "s\<lparr>ls_tick := ls_tick s + 1\<rparr>" E env] "1.prems" tbr by simp
      from False True have a: "\<not> maxTurns p \<le> ls_turns s" "\<not> env_aborted env (ls_tick s)" by auto
      show ?thesis
      proof (cases r)
        case None
        have "I (ls_store (snd (agentLoop E p env s')))"
          using "1.IH"(1)[OF True a(1) a(2) tbr[symmetric] None "1.prems"(1) f] .
        then show ?thesis using True a tbr None by (subst agentLoop.simps) simp
      next
        case (Some thrown)
        then show ?thesis using True a tbr f by (subst agentLoop.simps) simp
      qed
    qed
  next
    case False
    show ?thesis
    proof (cases "env_followUp env")
      case None
      then show ?thesis using False "1.prems"(2) by (subst agentLoop.simps) simp
    next
      case (Some g)
      show ?thesis
      proof (cases "length (g (ls_tick s)) > 0")
        case True
        have "I (ls_store (snd (agentLoop E p env (s\<lparr>ls_pendingMessages := g (ls_tick s), ls_hasMoreToolCalls := True,
                           ls_tick := ls_tick s + 1\<rparr>))))"
          using "1.IH"(2)[OF False Some refl True "1.prems"(1)] "1.prems"(2) by simp
        then show ?thesis using False Some True by (subst agentLoop.simps) (simp add: Let_def)
      next
        case False
        then show ?thesis using \<open>\<not> (ls_hasMoreToolCalls s \<or> length (ls_pendingMessages s) > 0)\<close> Some "1.prems"(2)
          by (subst agentLoop.simps) (simp add: Let_def)
      qed
    qed
  qed
qed

lemma runAgentLoop_store:
  assumes "\<And>msg now st. I st \<Longrightarrow> I (appendMessage p (sessionKey p) msg now st)" and "I store"
  shows "I (ls_store (snd (runAgentLoop E p env store msgs summaryMsg)))"
proof -
  have "I (ls_store (snd (agentLoop E p env (initialLoopState env store msgs summaryMsg))))"
    by (rule agentLoop_store[where I=I and p=p, OF assms(1)]) (simp_all add: initialLoopState_def assms(2))
  then show ?thesis
    by (cases "agentLoop E p env (initialLoopState env store msgs summaryMsg)")
       (auto simp: runAgentLoop_def split: option.splits)
qed

lemma runBody_store:
  assumes "\<And>msg now st. I st \<Longrightarrow> I (guardedAppend (sessionKey p) msg now st)" and "I G"
  shows "I (snd (runBody E p env rs G))"
proof (cases "rs_blocked rs")
  case (Some thrown)
  then show ?thesis using assms(2) by (simp add: runBody_def)
next
  case None
  let ?userMsg = "\<lparr>role = User, content = Str (rs_userMessage rs), timestamp = rs_startTime rs\<rparr>"
  let ?G1 = "guardedAppend (sessionKey p) ?userMsg (rs_startTime rs) G"
  have g1: "I ?G1" using assms(2) by (rule assms(1))
  show ?thesis
  proof (cases "rs_beforeLoop rs")
    case (Inl thrown)
    with None g1 show ?thesis by (simp add: runBody_def Let_def)
  next
    case (Inr compactionSummary)
    let ?p = "p\<lparr>appendMessage := guardedAppend\<rparr>"
    have "I (ls_store (snd (runAgentLoop E ?p env ?G1 (rs_history rs @ [?userMsg]) compactionSummary)))"
      by (rule runAgentLoop_store[where I=I and p="?p"]) (simp_all add: assms(1) g1)
    then show ?thesis using None Inr
      by (cases "runAgentLoop E ?p env ?G1 (rs_history rs @ [?userMsg]) compactionSummary")
         (auto simp: runBody_def Let_def split: option.splits)
  qed
qed

lemma flush_extends:
  "\<exists>added. transcripts (flushPendingToolResults k now G) k' = transcripts G k' @ added"
  by (cases "k' = k") (simp_all add: flush_sel)

lemma guardedAppend_extends:
  "\<exists>added. transcripts (guardedAppend k msg now G) k' = transcripts G k' @ added"
proof (cases "k' = k")
  case False
  then show ?thesis by (simp add: guardedAppend_others)
next
  case True
  obtain a where a: "transcripts (flushPendingToolResults k now G) k = transcripts G k @ a"
    using flush_extends[of k now G k] by blast
  show ?thesis
  proof (cases "extractToolResultIds msg = []")
    case False
    then show ?thesis using True by (simp add: guardedAppend_results)
  next
    case e: True
    then show ?thesis using True a by (simp add: guardedAppend_calls)
  qed
qed

text \<open>
  Claim C1. A tool call of a log is a \<open>tool_use\<close> block with a non-empty id in an assistant
  message; it is answered when a later user message has a \<open>tool_result\<close> block with that
  id for its \<open>tool_use_id\<close>. The guard keeps \<open>guardInv\<close> of every session: the pending ids
  are the ids of the unanswered calls of the log, each once. It holds of a new session
  manager, and every append through the guard and every flush, on any session, keeps it.
  For a run on a session of which it holds: after the run, whether it was refused before
  the user message was appended, failed before the loop, or went through the loop to an
  error, an abort or the end, every tool call of the log of the session is answered, and
  nothing is pending; the log has only been extended, and the logs and pending maps of
  the other sessions are as before. A flush with nothing pending changes nothing;
  otherwise it appends one user message and empties the map, and that message has one
  synthetic tool result for each pending id, in the order of the map: for each unanswered
  call of the log, one.
\<close>

theorem run_restores_pairing:
  assumes "guardInv (sessionKey p) G"
  shows "let k = sessionKey p; G' = snd (agentRun E p env rs G); T = transcripts G' k
         in (\<forall>i bid bname binput blocks.
               i < length T \<and> role (T ! i) = Assistant \<and> content (T ! i) = Blocks blocks
               \<and> ToolUse (Some bid) bname binput \<in> set blocks \<and> bid \<noteq> [] \<longrightarrow>
               (\<exists>j rname rcontent rblocks.
                  i < j \<and> j < length T \<and> role (T ! j) = User \<and> content (T ! j) = Blocks rblocks
                  \<and> ToolResult (Some bid) rname rcontent \<in> set rblocks))
          \<and> pendingBySession G' k = []
          \<and> (\<exists>added. T = transcripts G k @ added)
          \<and> (\<forall>k'. k' \<noteq> k \<longrightarrow>
                 transcripts G' k' = transcripts G k' \<and> pendingBySession G' k' = pendingBySession G k')
          \<and> (pendingBySession G0 k = [] \<longrightarrow> flushPendingToolResults k now G0 = G0)
          \<and> (pendingBySession G0 k \<noteq> [] \<longrightarrow>
                 transcripts (flushPendingToolResults k now G0) k =
                   transcripts G0 k @
                     [\<lparr>role = User,
                       content = Blocks (map (\<lambda>(pid, pname). makeMissingToolResult pid pname)
                                          (pendingBySession G0 k)),
                       timestamp = now\<rparr>]
                 \<and> pendingBySession (flushPendingToolResults k now G0) k = [])
          \<and> (guardInv k0 G0 \<longrightarrow>
                 guardInv k0 (guardedAppend k1 msg now G0)
                 \<and> guardInv k0 (flushPendingToolResults k1 now G0)
                 \<and> toolResultIds (syntheticMessage (pendingBySession G0 k0) now)
                      = map fst (pendingBySession G0 k0)
                 \<and> distinct (map fst (pendingBySession G0 k0))
                 \<and> set (map fst (pendingBySession G0 k0)) = unansweredIds (transcripts G0 k0))
          \<and> guardInv k0 \<lparr>transcripts = (\<lambda>key. []), pendingBySession = (\<lambda>key. [])\<rparr>"
proof -
  let ?k = "sessionKey p"
  let ?B = "snd (runBody E p env rs G)"
  let ?G' = "snd (agentRun E p env rs G)"
  have run: "?G' = flushPendingToolResults ?k (rs_flushTime rs) ?B"
    by (cases "runBody E p env rs G") (simp add: agentRun_def)
  have "guardInv ?k ?B"
    by (rule runBody_store[where I="guardInv (sessionKey p)"]) (simp_all add: guardedAppend_inv assms)
  then have "unansweredIds (transcripts ?G' ?k) = {}" unfolding run by (rule flush_unanswered)
  then have tp: "toolCallsPaired (transcripts ?G' ?k)" by (simp add: toolCallsPaired_iff)
  have paired: "\<exists>j rname rcontent rblocks.
                  i < j \<and> j < length (transcripts ?G' ?k) \<and> role (transcripts ?G' ?k ! j) = User
                  \<and> content (transcripts ?G' ?k ! j) = Blocks rblocks
                  \<and> ToolResult (Some bid) rname rcontent \<in> set rblocks"
    if h: "i < length (transcripts ?G' ?k) \<and> role (transcripts ?G' ?k ! i) = Assistant
        \<and> content (transcripts ?G' ?k ! i) = Blocks blocks
        \<and> ToolUse (Some bid) bname binput \<in> set blocks \<and> bid \<noteq> []"
    for i bid bname binput blocks
  proof -
    from h have "bid \<in> set (toolUseIds (transcripts ?G' ?k ! i))"
      unfolding toolUseIds_mem by blast
    with tp h have "answeredLater (transcripts ?G' ?k) i bid"
      by (auto simp: toolCallsPaired_def)
    then obtain j where j: "i < j" "j < length (transcripts ?G' ?k)"
      "bid \<in> set (toolResultIds (transcripts ?G' ?k ! j))"
      by (auto simp: answeredLater_def)
    from j(3)[unfolded toolResultIds_mem] j(1,2) show ?thesis by blast
  qed
  have pe: "pendingBySession ?G' ?k = []" unfolding run by (simp add: flush_sel)
  have ext: "\<exists>added. transcripts ?G' ?k = transcripts G ?k @ added"
  proof -
    have "\<exists>added. transcripts ?B ?k = transcripts G ?k @ added"
    proof (rule runBody_store[where I="\<lambda>st. \<exists>added. transcripts st (sessionKey p) = transcripts G (sessionKey p) @ added"])
      fix msg now and st :: GuardState
      assume "\<exists>added. transcripts st (sessionKey p) = transcripts G (sessionKey p) @ added"
      then obtain a where "transcripts st ?k = transcripts G ?k @ a" by blast
      moreover obtain b where "transcripts (guardedAppend ?k msg now st) ?k = transcripts st ?k @ b"
        using guardedAppend_extends[of ?k msg now st ?k] by blast
      ultimately have "transcripts (guardedAppend ?k msg now st) ?k = transcripts G ?k @ (a @ b)" by simp
      then show "\<exists>added. transcripts (guardedAppend ?k msg now st) ?k = transcripts G ?k @ added" by blast
    qed simp
    then obtain a where "transcripts ?B ?k = transcripts G ?k @ a" by blast
    moreover obtain b where "transcripts ?G' ?k = transcripts ?B ?k @ b"
      unfolding run using flush_extends[of ?k "rs_flushTime rs" ?B ?k] by blast
    ultimately have "transcripts ?G' ?k = transcripts G ?k @ (a @ b)" by simp
    then show ?thesis by blast
  qed
  have oth: "transcripts ?G' k' = transcripts G k' \<and> pendingBySession ?G' k' = pendingBySession G k'"
    if "k' \<noteq> ?k" for k'
  proof -
    have "transcripts ?B k' = transcripts G k' \<and> pendingBySession ?B k' = pendingBySession G k'"
      by (rule runBody_store[where I="\<lambda>st. transcripts st k' = transcripts G k'
                                          \<and> pendingBySession st k' = pendingBySession G k'"])
         (simp_all add: guardedAppend_others[OF that])
    then show ?thesis unfolding run using that by (simp add: flush_sel)
  qed
  have f1: "flushPendingToolResults ?k now G0 = G0" if "pendingBySession G0 ?k = []"
    using that by (simp add: flushPendingToolResults_def)
  have f2: "transcripts (flushPendingToolResults ?k now G0) ?k =
                   transcripts G0 ?k @
                     [\<lparr>role = User,
                       content = Blocks (map (\<lambda>(pid, pname). makeMissingToolResult pid pname)
                                          (pendingBySession G0 ?k)),
                       timestamp = now\<rparr>]
                 \<and> pendingBySession (flushPendingToolResults ?k now G0) ?k = []"
    if "pendingBySession G0 ?k \<noteq> []"
    using that by (simp add: flush_sel syntheticMessage_def)
  have g: "guardInv k0 (guardedAppend k1 msg now G0) \<and> guardInv k0 (flushPendingToolResults k1 now G0)
           \<and> toolResultIds (syntheticMessage (pendingBySession G0 k0) now)
                = map fst (pendingBySession G0 k0)
           \<and> distinct (map fst (pendingBySession G0 k0))
           \<and> set (map fst (pendingBySession G0 k0)) = unansweredIds (transcripts G0 k0)"
    if "guardInv k0 G0"
  proof -
    from that have keys: "fst ` set (pendingBySession G0 k0) = unansweredIds (transcripts G0 k0)"
      and d: "distinct (map fst (pendingBySession G0 k0))" by (simp_all add: guardInv_def)
    from keys have "[] \<notin> fst ` set (pendingBySession G0 k0)" by (simp add: unansweredIds_nonempty)
    from synthetic_ids[OF this, of now] keys d that show ?thesis
      by (simp add: guardedAppend_inv flush_inv)
  qed
  have e: "guardInv k0 \<lparr>transcripts = (\<lambda>key. []), pendingBySession = (\<lambda>key. [])\<rparr>"
    by (simp add: guardInv_def unansweredIds_def)
  show ?thesis
    unfolding Let_def
    using paired pe ext oth f1 f2 g e by blast
qed

theorem run_restores_pairing_witness:
  "guardInv (sessionKey ex_guardParams) ex_guardState
   \<and> fst (agentRun charEstimator ex_guardParams ex_throwEnv ex_runScript ex_guardState)
        = Some (readOfNullish ''undefined'')
   \<and> pendingBySession (snd (agentRun charEstimator ex_guardParams ex_throwEnv ex_runScript ex_guardState))
         ''main'' = []
   \<and> transcripts (snd (agentRun charEstimator ex_guardParams ex_throwEnv ex_runScript ex_guardState))
         ''main''
       = [\<lparr>role = User, content = Str ''hello'', timestamp = 0\<rparr>,
          \<lparr>role = Assistant, content = Blocks [ToolUse (Some ''c1'') (Some ''fetch'') []],
            timestamp = 5\<rparr>,
          \<lparr>role = User, content = Blocks [makeMissingToolResult ''c1'' (Some ''fetch'')],
            timestamp = 9\<rparr>]"
proof -
  have k: "sessionKey ex_guardParams = ''main''" by (simp add: ex_guardParams_def)
  have inv: "guardInv (sessionKey ex_guardParams) ex_guardState"
    by (simp add: guardInv_def unansweredIds_def ex_guardState_def)
  note T = run_restores_pairing[OF inv, of charEstimator ex_throwEnv ex_runScript, unfolded Let_def k]
  have p: "pendingBySession (snd (agentRun charEstimator ex_guardParams ex_throwEnv ex_runScript ex_guardState))
         ''main'' = []"
    using conjunct1[OF conjunct2[OF T]] .
  have tools: "toolsForRun (ex_guardParams\<lparr>appendMessage := guardedAppend\<rparr>) = ex_throwTools"
    "0 < maxTurns (ex_guardParams\<lparr>appendMessage := guardedAppend\<rparr>)"
    by (simp_all add: ex_guardParams_def)
  note loop = ex_throw_loop[OF tools, of charEstimator]
  have body: "runBody charEstimator ex_guardParams ex_throwEnv ex_runScript ex_guardState
     = (Some (readOfNullish ''undefined''),
        guardedAppend ''main'' ex_throwAssistant 5
          (guardedAppend ''main'' \<lparr>role = User, content = Str ''hello'', timestamp = 0\<rparr> 0 ex_guardState))"
    by (simp add: runBody_def ex_runScript_def Let_def runAgentLoop_def loop k readOfNullish_def)
  have r1: "extractToolResultIds \<lparr>role = User, content = Str ''hello'', timestamp = 0\<rparr> = []"
    "extractToolUsesFromAssistant \<lparr>role = User, content = Str ''hello'', timestamp = 0\<rparr> = []"
    "extractToolResultIds ex_throwAssistant = []"
    "extractToolUsesFromAssistant ex_throwAssistant = [(''c1'', Some ''fetch'')]"
    by (simp_all add: extractToolResultIds_def extractToolUsesFromAssistant_def ex_throwAssistant_def
          List.map_filter_simps truthy_def)
  have o: "fst (agentRun charEstimator ex_guardParams ex_throwEnv ex_runScript ex_guardState)
        = Some (readOfNullish ''undefined'')"
    unfolding agentRun_def body by simp
  have t: "transcripts (snd (agentRun charEstimator ex_guardParams ex_throwEnv ex_runScript ex_guardState))
         ''main''
       = [\<lparr>role = User, content = Str ''hello'', timestamp = 0\<rparr>,
          \<lparr>role = Assistant, content = Blocks [ToolUse (Some ''c1'') (Some ''fetch'') []],
            timestamp = 5\<rparr>,
          \<lparr>role = User, content = Blocks [makeMissingToolResult ''c1'' (Some ''fetch'')],
            timestamp = 9\<rparr>]"
    unfolding agentRun_def body
    apply (simp add: k ex_runScript_def flush_sel guardedAppend_calls r1 ex_guardState_def
        syntheticMessage_def)
    apply (simp add: ex_throwAssistant_def)
    done
  show ?thesis using inv o p t by simp
qed

end
